theory Spec2Isabelle
  imports Complex_Main "HOL-Library.Word"
begin

unbundle bit_operations_syntax

section \<open>Data model of dump2png.c\<close>

text \<open>
  A \<open>png_byte\<close> and an \<open>unsigned char\<close> are 8-bit words. The array \<open>rgb[3]\<close> of
  \<open>doimage\<close> is a triple of bytes; the accumulators \<open>sum[3]\<close> are \<open>unsigned long\<close>,
  taken as 64-bit words.
\<close>

type_synonym u8 = "8 word"
type_synonym pixel = "u8 \<times> u8 \<times> u8"
type_synonym sum3 = "64 word \<times> 64 word \<times> 64 word"

datatype palette_t =
    GRAY | GRAY16B | GRAY32B | GRAY16L | GRAY32L
  | HUES | HUES6 | FHUES
  | COLOR | COLOR16 | COLOR32
  | RGB | DVI | X86

text \<open>
  \<open>atopal\<close> compares the option string with the fourteen palette names in turn. When
  none matches it prints a message and calls \<open>exit(3)\<close>: that is the value \<open>None\<close>.
\<close>

definition atopal :: "string \<Rightarrow> palette_t option" where
  "atopal opt =
    (if opt = ''gray'' then Some GRAY
     else if opt = ''gray16b'' then Some GRAY16B
     else if opt = ''gray32b'' then Some GRAY32B
     else if opt = ''gray16l'' then Some GRAY16L
     else if opt = ''gray32l'' then Some GRAY32L
     else if opt = ''hues'' then Some HUES
     else if opt = ''hues6'' then Some HUES6
     else if opt = ''fhues'' then Some FHUES
     else if opt = ''color'' then Some COLOR
     else if opt = ''color16'' then Some COLOR16
     else if opt = ''color32'' then Some COLOR32
     else if opt = ''rgb'' then Some RGB
     else if opt = ''dvi'' then Some DVI
     else if opt = ''x86'' then Some X86
     else None)"

fun pal2chrs :: "palette_t \<Rightarrow> nat" where
  "pal2chrs RGB = 3"
| "pal2chrs GRAY16B = 2"
| "pal2chrs GRAY16L = 2"
| "pal2chrs COLOR16 = 2"
| "pal2chrs GRAY32B = 4"
| "pal2chrs GRAY32L = 4"
| "pal2chrs COLOR32 = 4"
| "pal2chrs GRAY = 1"
| "pal2chrs HUES = 1"
| "pal2chrs HUES6 = 1"
| "pal2chrs FHUES = 1"
| "pal2chrs COLOR = 1"
| "pal2chrs DVI = 1"
| "pal2chrs X86 = 1"

section \<open>Palette mappers\<close>

text \<open>
  \<open>int v = val * 3\<close> is computed on C ints (no wrap-around below 768); storing an int
  into a \<open>png_byte\<close> keeps its low eight bits, which is \<open>word_of_int\<close>.
\<close>

definition map_hues :: "u8 \<Rightarrow> pixel" where
  "map_hues val =
    (let v = uint val * 3 in
     if v < 256 then (word_of_int v, 0, 0)
     else if v < 512 then (0, word_of_int (v mod 256), 0)
     else (0, 0, word_of_int (v mod 256)))"

definition map_fhues :: "u8 \<Rightarrow> pixel" where
  "map_fhues val =
    (let v = uint val * 6 in
     if v < 256 then (word_of_int v, 0, 0)
     else if v < 256 * 2 then (255, word_of_int (v mod 256), word_of_int (v mod 256))
     else if v < 256 * 3 then (0, word_of_int (v mod 256), 0)
     else if v < 256 * 4 then (word_of_int (v mod 256), 255, word_of_int (v mod 256))
     else if v < 256 * 5 then (0, 0, word_of_int (v mod 256))
     else (word_of_int (v mod 256), word_of_int (v mod 256), 255))"

definition map_hues6 :: "u8 \<Rightarrow> pixel" where
  "map_hues6 val =
    (let v = uint val * 6 in
     if v < 256 then (word_of_int v, 0, 0)
     else if v < 256 * 2 then (0, word_of_int (v mod 256), 0)
     else if v < 256 * 3 then (0, 0, word_of_int (v mod 256))
     else if v < 256 * 4 then (0, word_of_int (v mod 256), word_of_int (v mod 256))
     else if v < 256 * 5 then (word_of_int (v mod 256), 0, word_of_int (v mod 256))
     else (word_of_int (v mod 256), word_of_int (v mod 256), 0))"

definition map_color16 :: "16 word \<Rightarrow> pixel" where
  "map_color16 val =
    (ucast (drop_bit 8 (val AND 0xfc00)),
     ucast (drop_bit 2 (val AND 0x03c0)),
     ucast (push_bit 3 (val AND 0x001f)))"

text \<open>
  \<open>map_color32\<close> takes an \<open>unsigned long\<close>; its three masks lie within the low 32 bits,
  so the value is modelled by those 32 bits.
\<close>

definition map_color32 :: "32 word \<Rightarrow> pixel" where
  "map_color32 val =
    (ucast (drop_bit 24 (val AND 0xff000000)),
     ucast (drop_bit 13 (val AND 0x001fe000)),
     ucast (drop_bit 1 (val AND 0x000001fe)))"

definition c2v_binary :: "u8 \<Rightarrow> u8" where
  "c2v_binary c =
    (if c = 0x01 then 0xff else if c = 0x02 then 0xcf else if c = 0x03 then 0xaf else 0)"

text \<open>
  \<open>c2v_english\<close> takes a \<open>char\<close>. The letters \<open>'e'\<close>, \<open>'t'\<close>, \<open>'a'\<close> are 0x65, 0x74, 0x61;
  a byte of 0x80 or more becomes a negative \<open>char\<close> or stays above 0x7f, and matches no
  case either way.
\<close>

definition c2v_english :: "u8 \<Rightarrow> u8" where
  "c2v_english c =
    (if c = 0x65 then 0xff else if c = 0x74 then 0xcf else if c = 0x61 then 0xaf else 0)"

definition c2v_x86 :: "u8 \<Rightarrow> u8" where
  "c2v_x86 c =
    (if c = 0x8b then 0xff else if c = 0xe8 then 0xcf else if c = 0x85 then 0xaf else 0)"

text \<open>The test \<open>rgb[0] + rgb[1] + rgb[2] == 0\<close> adds the three bytes as C ints.\<close>

definition map_x86 :: "u8 \<Rightarrow> pixel" where
  "map_x86 c =
    (let r = c2v_x86 c; g = c2v_english c; b = c2v_binary c in
     if unat r + unat g + unat b = 0 then (c, c, c) else (r, g, b))"

section \<open>The pixel assembler of \<open>doimage\<close>\<close>

text \<open>
  One pass of the \<open>switch (pal)\<close> inside the zoom loop: it reads the input buffer at
  offset \<open>xx\<close> and returns the sample colour with the value of \<open>xx\<close> at the end of the
  case (the loop header then adds one more). The history byte \<open>last\<close> of the source is
  written \<open>last'\<close> here. The argument of \<open>map_color16\<close> and \<open>map_color32\<close> is assembled
  from consecutive bytes, least significant first, the operands being taken from left to
  right. The \<open>default\<close> case cannot be reached: \<open>palette_t\<close> has these fourteen values.
\<close>

fun sample :: "palette_t \<Rightarrow> u8 list \<Rightarrow> nat \<Rightarrow> u8 \<Rightarrow> pixel \<times> nat" where
  "sample GRAY inbuf xx last' = ((inbuf ! xx, inbuf ! xx, inbuf ! xx), xx)"
| "sample GRAY16B inbuf xx last' = ((inbuf ! xx, inbuf ! xx, inbuf ! xx), xx + 1)"
| "sample GRAY32B inbuf xx last' = ((inbuf ! xx, inbuf ! xx, inbuf ! xx), xx + 3)"
| "sample GRAY16L inbuf xx last' =
    ((inbuf ! (xx + 1), inbuf ! (xx + 1), inbuf ! (xx + 1)), xx + 1)"
| "sample GRAY32L inbuf xx last' =
    ((inbuf ! (xx + 3), inbuf ! (xx + 3), inbuf ! (xx + 3)), xx + 3)"
| "sample HUES inbuf xx last' = (map_hues (inbuf ! xx), xx)"
| "sample HUES6 inbuf xx last' = (map_hues6 (inbuf ! xx), xx)"
| "sample FHUES inbuf xx last' = (map_fhues (inbuf ! xx), xx)"
| "sample COLOR inbuf xx last' =
    ((inbuf ! xx AND 0xe0, push_bit 3 (inbuf ! xx AND 0x1c), push_bit 6 (inbuf ! xx AND 0x03)),
     xx)"
| "sample COLOR16 inbuf xx last' =
    (map_color16 (ucast (inbuf ! xx) + push_bit 8 (ucast (inbuf ! (xx + 1)))), xx + 1)"
| "sample COLOR32 inbuf xx last' =
    (map_color32 (ucast (inbuf ! xx) + push_bit 8 (ucast (inbuf ! (xx + 1))) +
                  push_bit 16 (ucast (inbuf ! (xx + 2))) +
                  push_bit 24 (ucast (inbuf ! (xx + 3)))), xx + 3)"
| "sample RGB inbuf xx last' = ((inbuf ! xx, inbuf ! (xx + 1), inbuf ! (xx + 2)), xx + 2)"
| "sample X86 inbuf xx last' = (map_x86 (inbuf ! xx), xx)"
| "sample DVI inbuf xx last' =
    ((word_of_int \<bar>uint (inbuf ! xx) - uint last'\<bar>,
      inbuf ! xx,
      word_of_int ((uint (inbuf ! xx) + uint last') div 2)), xx)"

text \<open>\<open>sum[i] += rgb[i]\<close>: each byte is widened to \<open>unsigned long\<close> and added.\<close>

fun add_sum :: "pixel \<Rightarrow> sum3 \<Rightarrow> sum3" where
  "add_sum (r, g, b) (s0, s1, s2) = (s0 + ucast r, s1 + ucast g, s2 + ucast b)"

text \<open>
  \<open>rgb[i] = sum[i] / zoom\<close>: \<open>zoom\<close> is converted to \<open>unsigned long\<close>, the division is
  unsigned, and the store into the byte keeps the low eight bits.
\<close>

fun average :: "sum3 \<Rightarrow> int \<Rightarrow> pixel" where
  "average (s0, s1, s2) zoom =
    (ucast (s0 div word_of_int zoom), ucast (s1 div word_of_int zoom),
     ucast (s2 div word_of_int zoom))"

definition BYTE_MASK :: u8 where
  "BYTE_MASK = 0xfe"

fun apply_mask :: "pixel \<Rightarrow> pixel" where
  "apply_mask (r, g, b) = (r AND BYTE_MASK, g AND BYTE_MASK, b AND BYTE_MASK)"

text \<open>
  The loop \<open>for (z = 0; z < zoom; z++, xx++)\<close>, with \<open>n\<close> the number of passes still to
  run. Its state is \<open>rgb\<close>, \<open>sum\<close> (written \<open>sm\<close>) and \<open>xx\<close>; \<open>rgb\<close> is not reset between pixels, so its
  value on entry is part of the state.
\<close>

fun zoom_loop ::
  "palette_t \<Rightarrow> int \<Rightarrow> u8 list \<Rightarrow> u8 \<Rightarrow> nat \<Rightarrow> pixel \<times> sum3 \<times> nat \<Rightarrow> pixel \<times> sum3 \<times> nat" where
  "zoom_loop pal zoom inbuf last' 0 st = st"
| "zoom_loop pal zoom inbuf last' (Suc n) (rgb, sm, xx) =
    (case sample pal inbuf xx last' of
       (rgb', xx') \<Rightarrow>
         zoom_loop pal zoom inbuf last' n
           (rgb', if zoom > 1 then add_sum rgb' sm else sm, xx' + 1))"

text \<open>
  The part of the pixel body from \<open>sum[0] = sum[1] = sum[2] = 0\<close> to the division by
  \<open>zoom\<close>: the colour before masking and the new \<open>xx\<close>.
\<close>

definition zoom_pixel ::
  "palette_t \<Rightarrow> int \<Rightarrow> u8 list \<Rightarrow> u8 \<Rightarrow> pixel \<Rightarrow> nat \<Rightarrow> pixel \<times> nat" where
  "zoom_pixel pal zoom inbuf last' rgb xx =
    (case zoom_loop pal zoom inbuf last' (nat zoom) (rgb, (0, 0, 0), xx) of
       (rgb1, sm, xx1) \<Rightarrow> (if zoom > 1 then average sm zoom else rgb1, xx1))"

text \<open>
  The body of the loop over \<open>x\<close>. \<open>nread\<close> is the variable \<open>in\<close>, the result of \<open>read\<close>.
  The state carried from pixel to pixel is \<open>(xx, last, rgb)\<close>; the result is the pixel
  stored at \<open>pngbyte[x * 3]\<close> and the new state. The source ends the body with
  \<open>last = inbuf[x]\<close>, indexed by the pixel number.
\<close>

fun do_pixel ::
  "palette_t \<Rightarrow> int \<Rightarrow> bool \<Rightarrow> u8 list \<Rightarrow> int \<Rightarrow> nat \<Rightarrow> nat \<times> u8 \<times> pixel \<Rightarrow>
   pixel \<times> (nat \<times> u8 \<times> pixel)" where
  "do_pixel pal zoom mask' inbuf nread x (xx, last', rgb) =
    (if int (xx + pal2chrs pal) > nread then ((0, 0, 0), (xx, last', rgb))
     else case zoom_pixel pal zoom inbuf last' rgb xx of
       (rgb2, xx1) \<Rightarrow>
         let rgb3 = (if mask' then apply_mask rgb2 else rgb2)
         in (rgb3, (xx1, inbuf ! x, rgb3)))"

text \<open>The loop \<open>for (x = 0, xx = 0; x < width; x++)\<close>, with \<open>n\<close> pixels still to do.\<close>

fun row_loop ::
  "palette_t \<Rightarrow> int \<Rightarrow> bool \<Rightarrow> u8 list \<Rightarrow> int \<Rightarrow> nat \<Rightarrow> nat \<Rightarrow> nat \<times> u8 \<times> pixel \<Rightarrow>
   pixel list \<times> (nat \<times> u8 \<times> pixel)" where
  "row_loop pal zoom mask' inbuf nread 0 x st = ([], st)"
| "row_loop pal zoom mask' inbuf nread (Suc n) x st =
    (case do_pixel pal zoom mask' inbuf nread x st of
       (p, st1) \<Rightarrow>
         (case row_loop pal zoom mask' inbuf nread n (Suc x) st1 of
            (ps, st2) \<Rightarrow> (p # ps, st2)))"

text \<open>
  \<open>read(infile, inbuf, count)\<close> on the rest of a regular file, for a count that is not
  negative: it delivers the next \<open>count\<close> bytes, or all that is left, overwrites the front
  of the buffer with them and leaves the rest of the buffer as it was. The result is \<open>in\<close>, the new buffer and the
  rest of the file.
\<close>

definition read_chunk :: "u8 list \<Rightarrow> u8 list \<Rightarrow> nat \<Rightarrow> int \<times> u8 list \<times> u8 list" where
  "read_chunk infile inbuf count =
    (let n = min count (length infile)
     in (int n, take n infile @ drop n inbuf, drop n infile))"

text \<open>
  One pass of the loop over \<open>y\<close>: read \<open>width * chrs * skip * zoom\<close> bytes, then build
  the row. Only \<open>last\<close> and \<open>rgb\<close> survive from one row to the next.
\<close>

definition do_row ::
  "palette_t \<Rightarrow> int \<Rightarrow> int \<Rightarrow> int \<Rightarrow> bool \<Rightarrow> u8 list \<Rightarrow> u8 list \<Rightarrow> u8 \<times> pixel \<Rightarrow>
   pixel list \<times> u8 list \<times> u8 list \<times> (u8 \<times> pixel)" where
  "do_row pal width skip zoom mask' infile inbuf lr =
    (case read_chunk infile inbuf (nat (width * int (pal2chrs pal) * skip * zoom)) of
       (nread, inbuf1, infile1) \<Rightarrow>
         (case row_loop pal zoom mask' inbuf1 nread (nat width) 0 (0, lr) of
            (row, (xx, lr1)) \<Rightarrow> (row, infile1, inbuf1, lr1)))"

fun rows_loop ::
  "palette_t \<Rightarrow> int \<Rightarrow> int \<Rightarrow> int \<Rightarrow> bool \<Rightarrow> nat \<Rightarrow> u8 list \<Rightarrow> u8 list \<Rightarrow> u8 \<times> pixel \<Rightarrow>
   pixel list list" where
  "rows_loop pal width skip zoom mask' 0 infile inbuf lr = []"
| "rows_loop pal width skip zoom mask' (Suc n) infile inbuf lr =
    (case do_row pal width skip zoom mask' infile inbuf lr of
       (row, infile1, inbuf1, lr1) \<Rightarrow>
         row # rows_loop pal width skip zoom mask' n infile1 inbuf1 lr1)"

text \<open>
  The render loop of \<open>doimage\<close>: the rows handed to \<open>png_write_row\<close>, in order.
  \<open>infile\<close> is the content of the input from the current file position. The source
  initialises neither the locals \<open>last\<close> and \<open>rgb\<close> nor the allocated buffer \<open>inbuf\<close>;
  their first contents are the parameters \<open>last0\<close>, \<open>rgb0\<close> and \<open>inbuf0\<close>, the latter of
  the allocated length \<open>width * skip * zoom * chrs\<close>. The allocation and the calls into
  libpng around the loop are outside this model.
\<close>

definition doimage ::
  "u8 list \<Rightarrow> int \<Rightarrow> int \<Rightarrow> palette_t \<Rightarrow> int \<Rightarrow> int \<Rightarrow> bool \<Rightarrow> u8 list \<Rightarrow> u8 \<Rightarrow> pixel \<Rightarrow>
   pixel list list" where
  "doimage infile width height pal skip zoom mask' inbuf0 last0 rgb0 =
    rows_loop pal width skip zoom mask' (nat height) infile inbuf0 (last0, rgb0)"

section \<open>Zoom windows\<close>

text \<open>
  The colours of the \<open>n\<close> samples that the zoom loop decodes from offset \<open>xx\<close> on, one
  every \<open>pal2chrs pal\<close> bytes, and the sum of one channel over a list of colours.
\<close>

fun window :: "palette_t \<Rightarrow> u8 list \<Rightarrow> u8 \<Rightarrow> nat \<Rightarrow> nat \<Rightarrow> pixel list" where
  "window pal inbuf last' xx 0 = []"
| "window pal inbuf last' xx (Suc n) =
    fst (sample pal inbuf xx last') # window pal inbuf last' (xx + pal2chrs pal) n"

definition red :: "pixel \<Rightarrow> u8" where "red p = fst p"
definition green :: "pixel \<Rightarrow> u8" where "green p = fst (snd p)"
definition blue :: "pixel \<Rightarrow> u8" where "blue p = snd (snd p)"

definition chan_sum :: "(pixel \<Rightarrow> u8) \<Rightarrow> pixel list \<Rightarrow> nat" where
  "chan_sum f ps = sum_list (map (\<lambda>p. unat (f p)) ps)"

section \<open>Pixels of a row\<close>

text \<open>
  \<open>even_pixel\<close>: the low bit of each channel is clear. \<open>window_pixel\<close>: the pixel that the
  body of the pixel loop assembles from the zoom window at offset \<open>off\<close> of the buffer,
  with history byte \<open>last'\<close>.
\<close>

definition even_pixel :: "pixel \<Rightarrow> bool" where
  "even_pixel p \<longleftrightarrow> even (unat (red p)) \<and> even (unat (green p)) \<and> even (unat (blue p))"

definition window_pixel :: "palette_t \<Rightarrow> int \<Rightarrow> bool \<Rightarrow> u8 list \<Rightarrow> u8 \<Rightarrow> nat \<Rightarrow> pixel" where
  "window_pixel pal zoom mask' inbuf last' off =
    (let p = fst (zoom_pixel pal zoom inbuf last' (0, 0, 0) off)
     in if mask' then apply_mask p else p)"

text \<open>
  The offset within the chunk that the specification gives for the first byte of pixel
  \<open>x\<close> when the skip factor is \<open>skip\<close>.
\<close>

definition spec_pixel_offset :: "palette_t \<Rightarrow> int \<Rightarrow> int \<Rightarrow> nat \<Rightarrow> nat" where
  "spec_pixel_offset pal zoom skip x = x * pal2chrs pal * nat zoom * nat skip"

section \<open>The argument handling of \<open>main\<close>\<close>

text \<open>
  The variables that \<open>main\<close> sets from the command line, with their defaults. The
  flags \<open>mask\<close> and \<open>hscale\<close> are C ints used as truth values.
\<close>

record settings =
  s_width :: int
  s_height :: int
  s_skip :: int
  s_zoom :: int
  s_seek :: int
  s_mask :: bool
  s_hscale :: bool
  s_pal :: palette_t
  s_outfilename :: string

definition defaults :: settings where
  "defaults =
    \<lparr>s_width = 1024 * 1, s_height = 1024 * 10, s_skip = 1, s_zoom = 1, s_seek = 0,
     s_mask = True, s_hscale = True, s_pal = X86, s_outfilename = ''dump2png.png''\<rparr>"

text \<open>
  \<open>getopt\<close> belongs to the C library. The model takes what it delivers: the sequence of
  options it returns for \<open>argv\<close>, each numeric argument already passed through \<open>atoi\<close>,
  and the final value of \<open>optind\<close>. \<open>Opt_unknown\<close> is the result \<open>'?'\<close>.
\<close>

datatype opt =
    Opt_H | Opt_h int | Opt_k int | Opt_M | Opt_o string | Opt_p string
  | Opt_s int | Opt_w int | Opt_z int | Opt_unknown

text \<open>
  The two ways in which \<open>main\<close> ends before it touches a file: \<open>usage\<close>, which prints the
  usage text and calls \<open>exit(1)\<close>, and the \<open>exit(3)\<close> of \<open>atopal\<close>.
\<close>

datatype failure = Usage | InvalidPalette

fun exit_code :: "failure \<Rightarrow> nat" where
  "exit_code Usage = 1"
| "exit_code InvalidPalette = 3"

fun getopt_loop :: "opt list \<Rightarrow> settings \<Rightarrow> failure + settings" where
  "getopt_loop [] s = Inr s"
| "getopt_loop (Opt_H # os) s = getopt_loop os (s\<lparr>s_hscale := False\<rparr>)"
| "getopt_loop (Opt_h n # os) s = getopt_loop os (s\<lparr>s_height := n\<rparr>)"
| "getopt_loop (Opt_k n # os) s = getopt_loop os (s\<lparr>s_skip := n\<rparr>)"
| "getopt_loop (Opt_M # os) s = getopt_loop os (s\<lparr>s_mask := False\<rparr>)"
| "getopt_loop (Opt_o f # os) s = getopt_loop os (s\<lparr>s_outfilename := f\<rparr>)"
| "getopt_loop (Opt_p name # os) s =
    (case atopal name of
       None \<Rightarrow> Inl InvalidPalette
     | Some p \<Rightarrow> getopt_loop os (s\<lparr>s_pal := p\<rparr>))"
| "getopt_loop (Opt_s n # os) s = getopt_loop os (s\<lparr>s_seek := n\<rparr>)"
| "getopt_loop (Opt_w n # os) s = getopt_loop os (s\<lparr>s_width := n\<rparr>)"
| "getopt_loop (Opt_z n # os) s = getopt_loop os (s\<lparr>s_zoom := n\<rparr>)"
| "getopt_loop (Opt_unknown # os) s = Inl Usage"

text \<open>
  \<open>main\<close> from its first statement to \<open>infilename = argv[optind]\<close>. The result \<open>Inl\<close> is
  an exit before \<open>stat\<close>, \<open>open\<close> and \<open>read\<close> are reached; with \<open>Inr\<close> the settings go
  on to the file handling and to \<open>doimage\<close>.
\<close>

definition main_args :: "string list \<Rightarrow> opt list \<Rightarrow> nat \<Rightarrow> failure + settings" where
  "main_args argv opts optind =
    (if length argv < 2 \<or> argv ! 1 = ''--help'' then Inl Usage
     else case getopt_loop opts defaults of
       Inl f \<Rightarrow> Inl f
     | Inr s \<Rightarrow>
         if s_width s = 0 \<or> s_height s = 0 \<or> s_skip s = 0 \<or> s_zoom s = 0 then Inl Usage
         else if optind + 1 \<noteq> length argv then Inl Usage
         else Inr s)"

section \<open>The height computed by \<open>main\<close>\<close>

text \<open>
  The operator \<open>/\<close> on C integers drops the fractional part of the quotient, whatever
  the signs of the operands. The integers of \<open>main\<close> are modelled without wrap-around:
  an overflow of \<open>zoom * skip * chrs\<close> or of the conversion of the height to \<open>int\<close> is
  undefined in C and outside the model.
\<close>

definition c_div :: "int \<Rightarrow> int \<Rightarrow> int" where
  "c_div a b =
    (if (a < 0) = (b < 0) then \<bar>a\<bar> div \<bar>b\<bar> else - (\<bar>a\<bar> div \<bar>b\<bar>))"

text \<open>
  Single precision. A value of type \<open>float\<close> is modelled by the rational number it
  stands for, and \<open>f32\<close> rounds a rational to the nearest one with a 24-bit significand,
  ties to the even significand: the rounding of a conversion to \<open>float\<close> and of a
  \<open>float\<close> division. \<open>bitlen n\<close> is the number of binary digits of \<open>n\<close>, \<open>ilog2 x\<close> the
  binary exponent of a positive \<open>x\<close>, and \<open>rne\<close> rounds to the nearest integer, ties to
  even. The exponent range of the format is not modelled: the quotients formed here lie
  between \<open>2 powi (-31)\<close> and \<open>2 powi 63\<close>.
\<close>

fun bitlen :: "nat \<Rightarrow> nat" where
  "bitlen n = (if n = 0 then 0 else Suc (bitlen (n div 2)))"

declare bitlen.simps [simp del]

definition ilog2 :: "rat \<Rightarrow> int" where
  "ilog2 x =
    (if 1 \<le> x then int (bitlen (nat \<lfloor>x\<rfloor>)) - 1
     else - int (bitlen (nat (\<lceil>1 / x\<rceil> - 1))))"

definition rne :: "rat \<Rightarrow> int" where
  "rne y =
    (let n = \<lfloor>y\<rfloor>; r = y - of_int n
     in if r < 1 / 2 then n else if 1 / 2 < r then n + 1 else if even n then n else n + 1)"

definition f32 :: "rat \<Rightarrow> rat" where
  "f32 x =
    (if x = 0 then 0
     else let e = ilog2 \<bar>x\<bar> - 23
          in sgn x * of_int (rne (\<bar>x\<bar> / 2 powi e)) * 2 powi e)"

text \<open>
  \<open>int fullheight = ceil((float)(filestat.st_size / (zoom * skip * chrs)) / width)\<close>:
  the inner quotient is a division of integers; it is converted to \<open>float\<close>, divided by
  \<open>width\<close> converted to \<open>float\<close> in single precision, and rounded up by \<open>ceil\<close>, which
  is exact.
\<close>

definition fullheight :: "int \<Rightarrow> int \<Rightarrow> int \<Rightarrow> int \<Rightarrow> int \<Rightarrow> int" where
  "fullheight st_size zoom skip chrs width =
    \<lceil>f32 (f32 (of_int (c_div st_size (zoom * skip * chrs))) / f32 (of_int width))\<rceil>"

text \<open>
  The statements of \<open>main\<close> that settle the height, for an input file of \<open>st_size\<close> bytes:
  the height handed to \<open>doimage\<close>, and the two numbers of the truncation notice when it
  is printed (bytes shown, computed in \<open>unsigned long long\<close>, and total bytes).
\<close>

definition main_height :: "settings \<Rightarrow> int \<Rightarrow> int \<times> (64 word \<times> 64 word) option" where
  "main_height s st_size =
    (let chrs = int (pal2chrs (s_pal s));
         fh = fullheight st_size (s_zoom s) (s_skip s) chrs (s_width s)
     in if fh > s_height s
        then (s_height s,
              Some (word_of_int (s_width s) * word_of_int (s_height s) * word_of_int (s_zoom s) *
                    word_of_int (s_skip s) * word_of_int chrs,
                    word_of_int st_size))
        else (if s_hscale s then fh else s_height s, None))"


section \<open>The x86 palette\<close>

text \<open>
  Claim C3. For every byte, the x86 palette gives the nine indicator bytes a high value
  (0xff, 0xcf or 0xaf, distinct within each set) in a single channel and zero in the other
  two: red for the opcodes 0x8b, 0xe8, 0x85, green for the letters e, t, a, blue for
  0x01, 0x02, 0x03. Every other byte b is mapped to the gray triple (b, b, b).
\<close>

theorem map_x86_table:
  "map_x86 0x8b = (0xff, 0, 0) \<and> map_x86 0xe8 = (0xcf, 0, 0) \<and> map_x86 0x85 = (0xaf, 0, 0) \<and>
   map_x86 0x65 = (0, 0xff, 0) \<and> map_x86 0x74 = (0, 0xcf, 0) \<and> map_x86 0x61 = (0, 0xaf, 0) \<and>
   map_x86 0x01 = (0, 0, 0xff) \<and> map_x86 0x02 = (0, 0, 0xcf) \<and> map_x86 0x03 = (0, 0, 0xaf) \<and>
   (\<forall>b. b \<notin> {0x8b, 0xe8, 0x85, 0x65, 0x74, 0x61, 0x01, 0x02, 0x03} \<longrightarrow> map_x86 b = (b, b, b))"
  by (simp add: map_x86_def c2v_x86_def c2v_english_def c2v_binary_def)

theorem map_x86_table_witness:
  "(0x8b::u8) \<in> {0x8b, 0xe8, 0x85, 0x65, 0x74, 0x61, 0x01, 0x02, 0x03} \<and>
   map_x86 0x8b = (0xff, 0, 0) \<and>
   (0x40::u8) \<notin> {0x8b, 0xe8, 0x85, 0x65, 0x74, 0x61, 0x01, 0x02, 0x03} \<and>
   map_x86 0x40 = (0x40, 0x40, 0x40)"
  using map_x86_table by simp

text \<open>
  Claim C10. The three indicator sets are pairwise disjoint, so at most one of
  \<open>c2v_x86\<close>, \<open>c2v_english\<close>, \<open>c2v_binary\<close> is nonzero on a byte, and every colour of the
  x86 palette is pure red, pure green, pure blue or the gray triple of the byte.
\<close>

theorem map_x86_pure_or_gray:
  "{0x8b, 0xe8, 0x85} \<inter> {0x65, 0x74, 0x61 :: u8} = {} \<and>
   {0x8b, 0xe8, 0x85} \<inter> {0x01, 0x02, 0x03 :: u8} = {} \<and>
   {0x65, 0x74, 0x61} \<inter> {0x01, 0x02, 0x03 :: u8} = {} \<and>
   (\<forall>c. (c2v_x86 c = 0 \<and> c2v_english c = 0) \<or>
        (c2v_x86 c = 0 \<and> c2v_binary c = 0) \<or>
        (c2v_english c = 0 \<and> c2v_binary c = 0)) \<and>
   (\<forall>c. (\<exists>v. v \<noteq> 0 \<and> map_x86 c = (v, 0, 0)) \<or>
        (\<exists>v. v \<noteq> 0 \<and> map_x86 c = (0, v, 0)) \<or>
        (\<exists>v. v \<noteq> 0 \<and> map_x86 c = (0, 0, v)) \<or>
        map_x86 c = (c, c, c))"
  by (simp add: map_x86_def c2v_x86_def c2v_english_def c2v_binary_def)

section \<open>The zoom loop\<close>

lemma sample_advance: "snd (sample pal inbuf xx l) + 1 = xx + pal2chrs pal"
  by (cases pal) simp_all

lemma length_window [simp]: "length (window pal inbuf l xx n) = n"
  by (induction n arbitrary: xx) simp_all

lemma window_nth:
  "i < n \<Longrightarrow> window pal inbuf l xx n ! i = fst (sample pal inbuf (xx + i * pal2chrs pal) l)"
proof (induction n arbitrary: xx i)
  case 0
  then show ?case by simp
next
  case (Suc n)
  show ?case
  proof (cases i)
    case 0
    then show ?thesis by simp
  next
    case (Suc j)
    with Suc.prems have "j < n" by simp
    from Suc.IH [OF this, of "xx + pal2chrs pal"] Suc show ?thesis
      by (simp add: algebra_simps)
  qed
qed

lemma window_Nil_iff [simp]: "window pal inbuf l xx n = [] \<longleftrightarrow> n = 0"
  by (cases n) simp_all

lemma zoom_loop_window:
  "zoom_loop pal zoom inbuf l n (rgb, sm, xx) =
     (if n = 0 then rgb else last (window pal inbuf l xx n),
      if zoom > 1 then fold add_sum (window pal inbuf l xx n) sm else sm,
      xx + n * pal2chrs pal)"
proof (induction n arbitrary: rgb sm xx)
  case 0
  show ?case by simp
next
  case (Suc n)
  obtain c xx' where s: "sample pal inbuf xx l = (c, xx')"
    by (cases "sample pal inbuf xx l")
  with sample_advance [of pal inbuf xx l] have xx': "Suc xx' = xx + pal2chrs pal"
    by simp
  have step: "zoom_loop pal zoom inbuf l (Suc n) (rgb, sm, xx) =
      zoom_loop pal zoom inbuf l n
        (c, if zoom > 1 then add_sum c sm else sm, xx + pal2chrs pal)"
    by (simp add: s xx')
  have c: "fst (sample pal inbuf xx l) = c"
    by (simp add: s)
  show ?case
    unfolding step Suc.IH by (simp add: c)
qed

lemma fold_add_sum:
  "fold add_sum ps (s0, s1, s2) =
     (s0 + of_nat (chan_sum red ps), s1 + of_nat (chan_sum green ps),
      s2 + of_nat (chan_sum blue ps))"
proof (induction ps arbitrary: s0 s1 s2)
  case Nil
  show ?case by (simp add: chan_sum_def)
next
  case (Cons p ps)
  obtain r g b where p: "p = (r, g, b)" by (cases p)
  show ?case
    by (simp add: p Cons.IH chan_sum_def red_def green_def blue_def algebra_simps)
qed

lemma chan_sum_le: "chan_sum f ps \<le> 255 * length ps"
proof (induction ps)
  case Nil
  show ?case by (simp add: chan_sum_def)
next
  case (Cons p ps)
  have "unat (f p) < 256" using unsigned_less [of "f p"] by simp
  with Cons show ?case by (simp add: chan_sum_def)
qed


lemma avg_chan:
  fixes k :: nat
  assumes "1 \<le> zoom" "zoom \<le> 2147483647" "k \<le> 255 * nat zoom"
  shows "unat (ucast ((of_nat k :: 64 word) div word_of_int zoom) :: u8) = k div nat zoom"
proof -
  define n where "n = nat zoom"
  have z: "zoom = int n" using assms(1) by (simp add: n_def)
  have n: "n < 2 ^ 31" "0 < n" using assms(1,2) by (simp_all add: n_def)
  have k: "k < 2 ^ 64" using assms(3) n by (simp add: n_def)
  have "unat (of_nat k :: 64 word) = k"
    using k by (simp add: unat_of_nat)
  moreover have "unat (of_nat n :: 64 word) = n"
    using n by (simp add: unat_of_nat)
  moreover have "k div n \<le> 255"
    using div_le_mono [OF assms(3), of n] n(2) by (simp add: n_def)
  ultimately show ?thesis
    by (simp add: z unsigned_ucast_eq take_bit_eq_mod unat_div)
qed

lemma average_channels:
  "red (average (s0, s1, s2) zoom) = ucast (s0 div word_of_int zoom)"
  "green (average (s0, s1, s2) zoom) = ucast (s1 div word_of_int zoom)"
  "blue (average (s0, s1, s2) zoom) = ucast (s2 div word_of_int zoom)"
  by (simp_all add: red_def green_def blue_def)

lemma unat_chan_sum:
  assumes "int n \<le> 2147483647" "length ps = n"
  shows "unat (of_nat (chan_sum f ps) :: 64 word) = chan_sum f ps"
proof -
  have "chan_sum f ps \<le> 255 * n" using chan_sum_le [of f ps] assms(2) by simp
  moreover have "n < 2 ^ 31" using assms(1) by simp
  ultimately have "chan_sum f ps < 2 ^ 64" by simp
  then show ?thesis by (simp add: unat_of_nat)
qed

lemma zoom_loop_sums:
  assumes "1 < zoom"
  shows "zoom_loop pal zoom inbuf l (nat zoom) (rgb, (0, 0, 0), xx) =
     (last (window pal inbuf l xx (nat zoom)),
      (of_nat (chan_sum red (window pal inbuf l xx (nat zoom))),
       of_nat (chan_sum green (window pal inbuf l xx (nat zoom))),
       of_nat (chan_sum blue (window pal inbuf l xx (nat zoom)))),
      xx + nat zoom * pal2chrs pal)"
  using assms by (simp add: zoom_loop_window fold_add_sum)

lemma zoom_loop_one:
  "zoom_loop pal 1 inbuf l (nat 1) (rgb, sm, xx) =
     (fst (sample pal inbuf xx l), sm, xx + pal2chrs pal)"
  by (simp add: zoom_loop_window)

text \<open>
  Claim C9. For a zoom factor N from 1 to the largest \<open>int\<close>, the three sums that the zoom
  loop leaves in its 64-bit accumulators are at most 255 * N, and for N > 1 they are the
  exact sums of the N sample channels: the additions never wrap around. The quotient by N
  is at most 255, and the byte stored by the division is that quotient.
\<close>

theorem zoom_sums_bounded:
  assumes "1 \<le> zoom" and "zoom \<le> 2147483647"
    and "zoom_loop pal zoom inbuf l (nat zoom) (rgb, (0, 0, 0), xx) = (rgb1, (s0, s1, s2), xx1)"
    and "ws = window pal inbuf l xx (nat zoom)"
  shows "unat s0 \<le> 255 * nat zoom \<and> unat s1 \<le> 255 * nat zoom \<and> unat s2 \<le> 255 * nat zoom \<and>
    (1 < zoom \<longrightarrow>
       unat s0 = chan_sum red ws \<and> unat s1 = chan_sum green ws \<and> unat s2 = chan_sum blue ws) \<and>
    unat s0 div nat zoom \<le> 255 \<and> unat s1 div nat zoom \<le> 255 \<and> unat s2 div nat zoom \<le> 255 \<and>
    unat (red (average (s0, s1, s2) zoom)) = unat s0 div nat zoom \<and>
    unat (green (average (s0, s1, s2) zoom)) = unat s1 div nat zoom \<and>
    unat (blue (average (s0, s1, s2) zoom)) = unat s2 div nat zoom"
proof (cases "1 < zoom")
  case True
  have n: "int (nat zoom) \<le> 2147483647" "0 < nat zoom"
    using assms(1,2) by simp_all
  have len: "length ws = nat zoom" by (simp add: assms(4))
  have s: "s0 = of_nat (chan_sum red ws)" "s1 = of_nat (chan_sum green ws)"
    "s2 = of_nat (chan_sum blue ws)"
    using assms(3) zoom_loop_sums [OF True, of pal inbuf l rgb xx] by (simp_all add: assms(4))
  have u: "unat s0 = chan_sum red ws" "unat s1 = chan_sum green ws" "unat s2 = chan_sum blue ws"
    by (simp_all add: s unat_chan_sum [OF n(1) len])
  have b: "chan_sum red ws \<le> 255 * nat zoom" "chan_sum green ws \<le> 255 * nat zoom"
    "chan_sum blue ws \<le> 255 * nat zoom"
    using chan_sum_le [of red ws] chan_sum_le [of green ws] chan_sum_le [of blue ws] len
    by simp_all
  have a: "unat (red (average (s0, s1, s2) zoom)) = chan_sum red ws div nat zoom"
    "unat (green (average (s0, s1, s2) zoom)) = chan_sum green ws div nat zoom"
    "unat (blue (average (s0, s1, s2) zoom)) = chan_sum blue ws div nat zoom"
    unfolding s average_channels
    using avg_chan [OF assms(1,2) b(1)] avg_chan [OF assms(1,2) b(2)]
      avg_chan [OF assms(1,2) b(3)]
    by simp_all
  have d: "chan_sum red ws div nat zoom \<le> 255" "chan_sum green ws div nat zoom \<le> 255"
    "chan_sum blue ws div nat zoom \<le> 255"
    using div_le_mono [OF b(1), of "nat zoom"] div_le_mono [OF b(2), of "nat zoom"]
      div_le_mono [OF b(3), of "nat zoom"] n(2) by simp_all
  show ?thesis
    using u b a d by simp
next
  case False
  with assms(1) have z: "zoom = 1" by simp
  have "s0 = 0" "s1 = 0" "s2 = 0"
    using assms(3) zoom_loop_one [of pal inbuf l rgb "(0, 0, 0)" xx] by (simp_all add: z)
  then show ?thesis
    by (simp add: z red_def green_def blue_def)
qed


theorem zoom_sums_bounded_witness:
  "(1::int) \<le> 2 \<and> (2::int) \<le> 2147483647 \<and>
   zoom_loop GRAY 2 [255, 255] 0 (nat 2) ((0, 0, 0), (0, 0, 0), 0) =
     ((255, 255, 255), (510, 510, 510), 2) \<and>
   unat (510 :: 64 word) \<le> 255 * nat 2 \<and>
   unat (510 :: 64 word) = chan_sum red (window GRAY [255, 255] 0 0 (nat 2)) \<and>
   unat (red (average (510, 510, 510) 2)) = unat (510 :: 64 word) div nat 2"
proof -
  have e: "zoom_loop GRAY 2 [255, 255] 0 (nat 2) ((0, 0, 0), (0, 0, 0), 0) =
     ((255, 255, 255), (510, 510, 510), 2)"
    by code_simp
  have h: "(1::int) \<le> 2" "(2::int) \<le> 2147483647" "(1::int) < 2"
    by simp_all
  from zoom_sums_bounded [OF h(1,2) e refl] h e show ?thesis
    by blast
qed

lemma pixel_eqI:
  fixes p q :: pixel
  assumes "unat (red p) = unat (red q)" "unat (green p) = unat (green q)"
    "unat (blue p) = unat (blue q)"
  shows "p = q"
  using assms by (cases p; cases q) (simp add: red_def green_def blue_def word_unat_eq_iff)

lemma chan_sum_replicate: "chan_sum f (replicate n X) = n * unat (f X)"
  by (simp add: chan_sum_def sum_list_replicate)

lemma window_replicate:
  assumes "\<forall>i<n. fst (sample pal inbuf (xx + i * pal2chrs pal) l) = X"
  shows "window pal inbuf l xx n = replicate n X"
  using assms by (intro nth_equalityI) (simp_all add: window_nth)

lemma zoom_pixel_one:
  "zoom_pixel pal 1 inbuf l rgb xx = (fst (sample pal inbuf xx l), xx + pal2chrs pal)"
  using zoom_loop_one [of pal inbuf l rgb "(0, 0, 0)" xx] by (simp add: zoom_pixel_def)

lemma zoom_pixel_many:
  assumes "1 < zoom"
  shows "zoom_pixel pal zoom inbuf l rgb xx =
    (average (of_nat (chan_sum red (window pal inbuf l xx (nat zoom))),
              of_nat (chan_sum green (window pal inbuf l xx (nat zoom))),
              of_nat (chan_sum blue (window pal inbuf l xx (nat zoom)))) zoom,
     xx + nat zoom * pal2chrs pal)"
  using assms by (simp add: zoom_pixel_def zoom_loop_sums)

lemma zoom_pixel_identical:
  assumes "1 < zoom" "zoom \<le> 2147483647"
    and "\<forall>i<nat zoom. fst (sample pal inbuf (xx + i * pal2chrs pal) l) = X"
  shows "fst (zoom_pixel pal zoom inbuf l rgb xx) = X"
proof -
  have z: "1 \<le> zoom" "0 < nat zoom" using assms(1) by simp_all
  have w: "window pal inbuf l xx (nat zoom) = replicate (nat zoom) X"
    by (rule window_replicate [OF assms(3)])
  have b: "nat zoom * unat (f X) \<le> 255 * nat zoom" for f :: "pixel \<Rightarrow> u8"
  proof -
    have "unat (f X) < 256" using unsigned_less [of "f X"] by simp
    then have "unat (f X) \<le> 255" by simp
    then show ?thesis by (simp add: mult.commute)
  qed
  have c: "unat (ucast ((of_nat (nat zoom * unat (f X)) :: 64 word) div word_of_int zoom) :: u8) =
      unat (f X)" for f :: "pixel \<Rightarrow> u8"
    using avg_chan [OF z(1) assms(2) b [of f]] z(2) by simp
  have p: "fst (zoom_pixel pal zoom inbuf l rgb xx) =
      average (of_nat (nat zoom * unat (red X)), of_nat (nat zoom * unat (green X)),
               of_nat (nat zoom * unat (blue X))) zoom"
    by (simp only: zoom_pixel_many [OF assms(1)] w chan_sum_replicate fst_conv)
  show ?thesis
    unfolding p by (rule pixel_eqI; unfold average_channels; rule c)
qed

text \<open>
  Claim C5. With zoom 1 and masking off, a pixel that is not end-of-input fill is the
  colour of its one sample. With zoom N > 1 and masking off, when the N samples of the
  window all decode to the colour X, the pixel is X.
\<close>

theorem zoom_identity:
  "(int (xx + pal2chrs pal) \<le> nread \<longrightarrow>
      fst (do_pixel pal 1 False inbuf nread x (xx, l, rgb)) = fst (sample pal inbuf xx l)) \<and>
   (1 < zoom \<and> zoom \<le> 2147483647 \<and> int (xx + pal2chrs pal) \<le> nread \<and>
    (\<forall>i<nat zoom. fst (sample pal inbuf (xx + i * pal2chrs pal) l) = X) \<longrightarrow>
      fst (do_pixel pal zoom False inbuf nread x (xx, l, rgb)) = X)"
proof (intro conjI impI)
  assume "int (xx + pal2chrs pal) \<le> nread"
  then show "fst (do_pixel pal 1 False inbuf nread x (xx, l, rgb)) = fst (sample pal inbuf xx l)"
    by (simp add: zoom_pixel_one)
next
  assume a: "1 < zoom \<and> zoom \<le> 2147483647 \<and> int (xx + pal2chrs pal) \<le> nread \<and>
    (\<forall>i<nat zoom. fst (sample pal inbuf (xx + i * pal2chrs pal) l) = X)"
  then have "fst (zoom_pixel pal zoom inbuf l rgb xx) = X"
    by (intro zoom_pixel_identical) simp_all
  with a show "fst (do_pixel pal zoom False inbuf nread x (xx, l, rgb)) = X"
    by (simp add: split_beta)
qed

theorem zoom_identity_witness:
  "int (0 + pal2chrs X86) \<le> 3 \<and>
   fst (do_pixel X86 1 False [139, 7, 7] 3 0 (0, 0, (0, 0, 0))) = (255, 0, 0) \<and>
   (1::int) < 3 \<and> (3::int) \<le> 2147483647 \<and>
   fst (sample X86 [7, 7, 7] (0 + 0 * pal2chrs X86) 0) = (7, 7, 7) \<and>
   fst (sample X86 [7, 7, 7] (0 + 1 * pal2chrs X86) 0) = (7, 7, 7) \<and>
   fst (sample X86 [7, 7, 7] (0 + 2 * pal2chrs X86) 0) = (7, 7, 7) \<and>
   fst (do_pixel X86 3 False [7, 7, 7] 3 0 (0, 0, (0, 0, 0))) = (7, 7, 7)"
proof -
  have n: "nat 3 = Suc (Suc (Suc 0))" by simp
  have s0: "fst (sample X86 [7, 7, 7] (0 + 0 * pal2chrs X86) 0) = (7, 7, 7)"
    and s1: "fst (sample X86 [7, 7, 7] (0 + 1 * pal2chrs X86) 0) = (7, 7, 7)"
    and s2: "fst (sample X86 [7, 7, 7] (0 + 2 * pal2chrs X86) 0) = (7, 7, 7)"
    by (simp_all add: map_x86_def c2v_x86_def c2v_english_def c2v_binary_def)
  have "fst (sample X86 [7, 7, 7] (0 + i * pal2chrs X86) 0) = (7, 7, 7)" if "i < nat 3" for i
  proof -
    from that have "i = 0 \<or> i = 1 \<or> i = 2" unfolding n by auto
    with s0 s1 s2 show ?thesis by blast
  qed
  then have h: "\<forall>i<nat 3. fst (sample X86 [7, 7, 7] (0 + i * pal2chrs X86) 0) = (7, 7, 7)"
    by blast
  have s: "fst (sample X86 [139, 7, 7] 0 0) = (255, 0, 0)"
    by code_simp
  have c: "int (0 + pal2chrs X86) \<le> 3" "(1::int) < 3" "(3::int) \<le> 2147483647"
    by simp_all
  from zoom_identity [where xx = 0 and pal = X86 and nread = 3 and inbuf = "[139, 7, 7]"
      and x = 0 and l = 0 and rgb = "(0, 0, 0)"] c(1) s
  have a: "fst (do_pixel X86 1 False [139, 7, 7] 3 0 (0, 0, (0, 0, 0))) = (255, 0, 0)"
    by simp
  from zoom_identity [where xx = 0 and pal = X86 and nread = 3 and inbuf = "[7, 7, 7]"
      and x = 0 and l = 0 and rgb = "(0, 0, 0)" and zoom = 3 and X = "(7, 7, 7)"] c h
  have b: "fst (do_pixel X86 3 False [7, 7, 7] 3 0 (0, 0, (0, 0, 0))) = (7, 7, 7)"
    by blast
  from a b c s0 s1 s2 show ?thesis by blast
qed

section \<open>Masking\<close>

lemma even_apply_mask: "even_pixel (r AND BYTE_MASK, g AND BYTE_MASK, b AND BYTE_MASK)"
  by (simp add: even_pixel_def red_def green_def blue_def BYTE_MASK_def even_and_iff
      unsigned_and_eq)

lemma even_black: "even_pixel (0, 0, 0)"
  by (simp add: even_pixel_def red_def green_def blue_def)

lemma do_pixel_even: "even_pixel (fst (do_pixel pal zoom True inbuf nread x st))"
  by (cases st) (simp add: even_black even_apply_mask Let_def split: prod.split)

lemma row_loop_even:
  "p \<in> set (fst (row_loop pal zoom True inbuf nread n x st)) \<Longrightarrow> even_pixel p"
proof (induction n arbitrary: x st)
  case 0
  then show ?case by simp
next
  case (Suc n)
  obtain q st1 where d: "do_pixel pal zoom True inbuf nread x st = (q, st1)"
    by (cases "do_pixel pal zoom True inbuf nread x st")
  obtain ps st2 where r: "row_loop pal zoom True inbuf nread n (Suc x) st1 = (ps, st2)"
    by (cases "row_loop pal zoom True inbuf nread n (Suc x) st1")
  from Suc.prems have "p = q \<or> p \<in> set ps" by (simp add: d r)
  then show ?case
  proof
    assume "p = q"
    with do_pixel_even [of pal zoom inbuf nread x st] show ?thesis by (simp add: d)
  next
    assume "p \<in> set ps"
    with Suc.IH [of "Suc x" st1] show ?thesis by (simp add: r)
  qed
qed

lemma do_row_even:
  assumes "do_row pal width skip zoom True infile inbuf lr = (row, rest)" "p \<in> set row"
  shows "even_pixel p"
proof -
  obtain nread inbuf1 infile1 where
    c: "read_chunk infile inbuf (nat (width * int (pal2chrs pal) * skip * zoom)) =
      (nread, inbuf1, infile1)"
    by (metis prod_cases3)
  from assms(1) have "row = fst (row_loop pal zoom True inbuf1 nread (nat width) 0 (0, lr))"
    by (simp add: do_row_def c split: prod.splits)
  with assms(2) show ?thesis by (simp add: row_loop_even)
qed

lemma rows_loop_even:
  "row \<in> set (rows_loop pal width skip zoom True n infile inbuf lr) \<Longrightarrow> p \<in> set row \<Longrightarrow>
   even_pixel p"
proof (induction n arbitrary: infile inbuf lr)
  case 0
  then show ?case by simp
next
  case (Suc n)
  obtain r infile1 inbuf1 lr1 where
    d: "do_row pal width skip zoom True infile inbuf lr = (r, infile1, inbuf1, lr1)"
    by (metis prod_cases4)
  from Suc.prems(1) have
    "row = r \<or> row \<in> set (rows_loop pal width skip zoom True n infile1 inbuf1 lr1)"
    by (simp add: d)
  then show ?case
  proof
    assume "row = r"
    with do_row_even [OF d] Suc.prems(2) show ?thesis by simp
  next
    assume "row \<in> set (rows_loop pal width skip zoom True n infile1 inbuf1 lr1)"
    then show ?thesis using Suc.IH Suc.prems(2) by blast
  qed
qed

text \<open>
  Claim C6. With masking on, every channel of every pixel of every row that \<open>doimage\<close>
  produces is even, for every palette, zoom, skip and input. With masking off the rule
  does not bind: a one-byte input 0x01 rendered with the gray palette gives the odd
  pixel (1, 1, 1).
\<close>

theorem masked_channels_even:
  "(\<forall>row \<in> set (doimage infile width height pal skip zoom True inbuf0 last0 rgb0).
      \<forall>p \<in> set row. even_pixel p) \<and>
   doimage [1] 1 1 GRAY 1 1 False [0] 0 (0, 0, 0) = [[(1, 1, 1)]]"
proof
  show "\<forall>row \<in> set (doimage infile width height pal skip zoom True inbuf0 last0 rgb0).
      \<forall>p \<in> set row. even_pixel p"
    unfolding doimage_def using rows_loop_even by blast
  show "doimage [1] 1 1 GRAY 1 1 False [0] 0 (0, 0, 0) = [[(1, 1, 1)]]"
    by code_simp
qed

theorem masked_channels_even_witness:
  "doimage [10, 21, 33] 2 2 GRAY 1 2 True [7, 7, 7, 7] 0 (0, 0, 0) =
     [[(14, 14, 14), (20, 20, 20)], [(0, 0, 0), (0, 0, 0)]] \<and>
   [(14, 14, 14), (20, 20, 20)] \<in>
     set (doimage [10, 21, 33] 2 2 GRAY 1 2 True [7, 7, 7, 7] 0 (0, 0, 0)) \<and>
   ((20, 20, 20) :: pixel) \<in> set [(14, 14, 14), (20, 20, 20)] \<and>
   even_pixel (20, 20, 20)"
proof -
  have e: "doimage [10, 21, 33] 2 2 GRAY 1 2 True [7, 7, 7, 7] 0 (0, 0, 0) =
     [[(14, 14, 14), (20, 20, 20)], [(0, 0, 0), (0, 0, 0)]]"
    by code_simp
  have m: "[(14, 14, 14), (20, 20, 20)] \<in>
     set (doimage [10, 21, 33] 2 2 GRAY 1 2 True [7, 7, 7, 7] 0 (0, 0, 0))"
    unfolding e by simp
  have q: "((20, 20, 20) :: pixel) \<in> set [(14, 14, 14), (20, 20, 20)]"
    by simp
  from masked_channels_even [of "[10, 21, 33]" 2 2 GRAY 1 2 "[7, 7, 7, 7]" 0 "(0, 0, 0)"] m q
  have "even_pixel (20, 20, 20)" by blast
  with e m q show ?thesis by blast
qed

section \<open>Rows\<close>

lemma zoom_pixel_window:
  "zoom_pixel pal zoom inbuf l rgb xx =
    (if zoom > 1 then average (fold add_sum (window pal inbuf l xx (nat zoom)) (0, 0, 0)) zoom
     else if nat zoom = 0 then rgb else last (window pal inbuf l xx (nat zoom)),
     xx + nat zoom * pal2chrs pal)"
  by (simp add: zoom_pixel_def zoom_loop_window)

lemma zoom_pixel_rgb:
  assumes "0 < zoom"
  shows "zoom_pixel pal zoom inbuf l rgb xx =
    (fst (zoom_pixel pal zoom inbuf l (0, 0, 0) xx), xx + nat zoom * pal2chrs pal)"
  using assms by (simp add: zoom_pixel_window)

lemma do_pixel_window:
  assumes "0 < zoom"
  shows "do_pixel pal zoom mask' inbuf nread x (xx, l, rgb) =
    (if nread < int (xx + pal2chrs pal) then ((0, 0, 0), (xx, l, rgb))
     else (window_pixel pal zoom mask' inbuf l xx,
           (xx + nat zoom * pal2chrs pal, inbuf ! x, window_pixel pal zoom mask' inbuf l xx)))"
  by (simp add: zoom_pixel_rgb [OF assms, of pal inbuf l rgb xx] window_pixel_def Let_def)

lemma row_loop_Suc:
  "fst (row_loop pal zoom mask' inbuf nread (Suc n) x st) =
     fst (do_pixel pal zoom mask' inbuf nread x st) #
     fst (row_loop pal zoom mask' inbuf nread n (Suc x)
            (snd (do_pixel pal zoom mask' inbuf nread x st)))"
  by (simp split: prod.split)

lemma row_loop_length: "length (fst (row_loop pal zoom mask' inbuf nread n x st)) = n"
proof (induction n arbitrary: x st)
  case 0
  show ?case by simp
next
  case (Suc n)
  show ?case unfolding row_loop_Suc by (simp add: Suc.IH)
qed

lemma offset_mono:
  fixes a b z c :: nat
  assumes "xx \<le> a * z * c" "a \<le> b"
  shows "xx \<le> b * z * c"
proof -
  have "a * z * c \<le> b * z * c"
    using assms(2) by (intro mult_le_mono1)
  with assms(1) show ?thesis by (rule order_trans)
qed

lemma row_loop_nth:
  assumes "0 < zoom"
    and "xx \<le> x0 * nat zoom * pal2chrs pal"
    and "xx = x0 * nat zoom * pal2chrs pal \<or> nread < int (xx + pal2chrs pal)"
    and "i < n"
  shows "fst (row_loop pal zoom mask' inbuf nread n x0 (xx, l, rgb)) ! i =
    (if nread < int ((x0 + i) * nat zoom * pal2chrs pal + pal2chrs pal) then (0, 0, 0)
     else window_pixel pal zoom mask' inbuf (if i = 0 then l else inbuf ! (x0 + i - 1))
            ((x0 + i) * nat zoom * pal2chrs pal))"
  using assms(2-)
proof (induction n arbitrary: x0 xx l rgb i)
  case 0
  then show ?case by simp
next
  case (Suc n)
  let ?c = "pal2chrs pal"
  let ?Z = "nat zoom"
  show ?case
  proof (cases "nread < int (xx + ?c)")
    case True
    have step: "fst (row_loop pal zoom mask' inbuf nread (Suc n) x0 (xx, l, rgb)) =
        (0, 0, 0) # fst (row_loop pal zoom mask' inbuf nread n (Suc x0) (xx, l, rgb))"
      unfolding row_loop_Suc do_pixel_window [OF assms(1)] using True by simp
    have le: "xx \<le> (x0 + i) * ?Z * ?c"
      using Suc.prems(1) by (rule offset_mono) simp
    then have black: "nread < int ((x0 + i) * ?Z * ?c + ?c)"
      using True by linarith
    show ?thesis
    proof (cases i)
      case 0
      then show ?thesis unfolding step using black by simp
    next
      case (Suc j)
      have "xx \<le> Suc x0 * ?Z * ?c" using Suc.prems(1) by (rule offset_mono) simp
      moreover have "j < n" using Suc.prems(3) Suc by simp
      ultimately have "fst (row_loop pal zoom mask' inbuf nread n (Suc x0) (xx, l, rgb)) ! j =
          (if nread < int ((Suc x0 + j) * ?Z * ?c + ?c) then (0, 0, 0)
           else window_pixel pal zoom mask' inbuf (if j = 0 then l else inbuf ! (Suc x0 + j - 1))
                  ((Suc x0 + j) * ?Z * ?c))"
        using True by (intro Suc.IH) simp_all
      then show ?thesis unfolding step using black Suc by simp
    qed
  next
    case False
    with Suc.prems(2) have xx: "xx = x0 * ?Z * ?c" by simp
    let ?p = "window_pixel pal zoom mask' inbuf l xx"
    have step: "fst (row_loop pal zoom mask' inbuf nread (Suc n) x0 (xx, l, rgb)) =
        ?p # fst (row_loop pal zoom mask' inbuf nread n (Suc x0) (xx + ?Z * ?c, inbuf ! x0, ?p))"
      unfolding row_loop_Suc do_pixel_window [OF assms(1)] using False by simp
    have xx': "xx + ?Z * ?c = Suc x0 * ?Z * ?c" by (simp add: xx add_mult_distrib)
    show ?thesis
    proof (cases i)
      case 0
      then show ?thesis unfolding step using False by (simp add: xx)
    next
      case (Suc j)
      have "j < n" using Suc.prems(3) Suc by simp
      then have "fst (row_loop pal zoom mask' inbuf nread n (Suc x0)
            (xx + ?Z * ?c, inbuf ! x0, ?p)) ! j =
          (if nread < int ((Suc x0 + j) * ?Z * ?c + ?c) then (0, 0, 0)
           else window_pixel pal zoom mask' inbuf
                  (if j = 0 then inbuf ! x0 else inbuf ! (Suc x0 + j - 1))
                  ((Suc x0 + j) * ?Z * ?c))"
        by (intro Suc.IH) (simp_all add: xx')
      then show ?thesis unfolding step using Suc by simp
    qed
  qed
qed

lemma row_nth:
  assumes "0 < zoom" "x < n"
  shows "fst (row_loop pal zoom mask' inbuf nread n 0 (0, l, rgb)) ! x =
    (if nread < int (x * nat zoom * pal2chrs pal + pal2chrs pal) then (0, 0, 0)
     else window_pixel pal zoom mask' inbuf (if x = 0 then l else inbuf ! (x - 1))
            (x * nat zoom * pal2chrs pal))"
  using row_loop_nth [OF assms(1) _ _ assms(2), of 0 0 pal nread mask' inbuf l rgb] by simp


lemma pal2chrs_pos: "0 < pal2chrs pal"
  by (cases pal) simp_all

lemma do_row_eq:
  assumes "do_row pal width skip zoom mask' infile inbuf (l, rgb) = (row, infile1, inbuf1, lr1)"
    and "cnt = nat (width * int (pal2chrs pal) * skip * zoom)"
  shows "inbuf1 = take cnt infile @ drop (min cnt (length infile)) inbuf"
    and "infile1 = drop cnt infile"
    and "row = fst (row_loop pal zoom mask' inbuf1 (int (min cnt (length infile))) (nat width) 0
                 (0, l, rgb))"
  using assms
  by (auto simp: do_row_def read_chunk_def Let_def min_def split: prod.splits)

lemma do_pixel_fill:
  assumes "nread < int (xx + pal2chrs pal)"
  shows "do_pixel pal zoom mask' inbuf nread x (xx, l, rgb) = ((0, 0, 0), (xx, l, rgb))"
  using assms by simp

lemma do_pixel_advance:
  assumes "\<not> nread < int (xx + pal2chrs pal)"
  shows "fst (snd (do_pixel pal zoom mask' inbuf nread x (xx, l, rgb))) =
    xx + nat zoom * pal2chrs pal"
  using assms by (simp add: zoom_pixel_window Let_def)

lemma row_loop_fill:
  assumes "xx \<le> x0 * nat zoom * pal2chrs pal"
    and "xx = x0 * nat zoom * pal2chrs pal \<or> nread < int (xx + pal2chrs pal)"
    and "i < n"
    and "nread < int ((x0 + i) * nat zoom * pal2chrs pal + pal2chrs pal)"
  shows "fst (row_loop pal zoom mask' inbuf nread n x0 (xx, l, rgb)) ! i = (0, 0, 0)"
  using assms
proof (induction n arbitrary: x0 xx l rgb i)
  case 0
  then show ?case by simp
next
  case (Suc n)
  let ?c = "pal2chrs pal"
  let ?Z = "nat zoom"
  show ?case
  proof (cases "nread < int (xx + ?c)")
    case True
    note fill = do_pixel_fill [OF True, of zoom mask' inbuf x0 l rgb]
    show ?thesis
    proof (cases i)
      case 0
      then show ?thesis unfolding row_loop_Suc fill by simp
    next
      case (Suc j)
      have "xx \<le> Suc x0 * ?Z * ?c" using Suc.prems(1) by (rule offset_mono) simp
      moreover have "j < n" using Suc.prems(3) Suc by simp
      moreover have "nread < int ((Suc x0 + j) * ?Z * ?c + ?c)"
        using Suc.prems(4) Suc by simp
      ultimately have
        "fst (row_loop pal zoom mask' inbuf nread n (Suc x0) (xx, l, rgb)) ! j = (0, 0, 0)"
        using True by (intro Suc.IH) simp_all
      then show ?thesis unfolding row_loop_Suc fill using Suc by simp
    qed
  next
    case False
    with Suc.prems(2) have xx: "xx = x0 * ?Z * ?c" by simp
    obtain p xx1 l' rgb' where
      d: "do_pixel pal zoom mask' inbuf nread x0 (xx, l, rgb) = (p, (xx1, l', rgb'))"
      by (metis prod.exhaust)
    with do_pixel_advance [OF False, of zoom mask' inbuf x0 l rgb]
    have adv: "do_pixel pal zoom mask' inbuf nread x0 (xx, l, rgb) =
        (p, (xx + ?Z * ?c, l', rgb'))"
      by simp
    have xx': "xx + ?Z * ?c = Suc x0 * ?Z * ?c" by (simp add: xx add_mult_distrib)
    show ?thesis
    proof (cases i)
      case 0
      with Suc.prems(4) False show ?thesis by (simp add: xx)
    next
      case (Suc j)
      have "j < n" using Suc.prems(3) Suc by simp
      moreover have "nread < int ((Suc x0 + j) * ?Z * ?c + ?c)"
        using Suc.prems(4) Suc by simp
      ultimately have
        "fst (row_loop pal zoom mask' inbuf nread n (Suc x0) (xx + ?Z * ?c, l', rgb')) ! j =
          (0, 0, 0)"
        by (intro Suc.IH) (simp_all add: xx')
      then show ?thesis unfolding row_loop_Suc adv using Suc by simp
    qed
  qed
qed

text \<open>
  Claim C4. When the rest of the input is shorter than the chunk of a row, the row still
  has all its \<open>width\<close> pixels, and every pixel whose zoom window starts at or after
  the end of the last complete unit of \<open>pal2chrs pal\<close> bytes is (0, 0, 0), for every
  palette, zoom, skip and masking. The row function has no failing branch.
\<close>

theorem short_row_black:
  assumes "length infile < nat (width * int (pal2chrs pal) * skip * zoom)"
    and "do_row pal width skip zoom mask' infile inbuf lr = (row, infile1, inbuf1, lr1)"
  shows "length row = nat width \<and>
    (\<forall>x<nat width. length infile div pal2chrs pal \<le> x * nat zoom \<longrightarrow> row ! x = (0, 0, 0))"
proof -
  obtain l rgb where lr: "lr = (l, rgb)" by (cases lr)
  define cnt where "cnt = nat (width * int (pal2chrs pal) * skip * zoom)"
  have m: "min cnt (length infile) = length infile"
    using assms(1) by (simp add: cnt_def)
  have row: "row = fst (row_loop pal zoom mask' inbuf1 (int (length infile)) (nat width) 0
      (0, l, rgb))"
    using do_row_eq(3) [OF assms(2) [unfolded lr] cnt_def] by (simp add: m)
  have "row ! x = (0, 0, 0)"
    if "x < nat width" "length infile div pal2chrs pal \<le> x * nat zoom" for x
  proof -
    from that(2) have "length infile div pal2chrs pal < Suc (x * nat zoom)" by simp
    then have "length infile < Suc (x * nat zoom) * pal2chrs pal"
      using pal2chrs_pos [of pal] by (simp add: div_less_iff_less_mult)
    then have "length infile < (0 + x) * nat zoom * pal2chrs pal + pal2chrs pal"
      by simp
    then have "int (length infile) < int ((0 + x) * nat zoom * pal2chrs pal + pal2chrs pal)"
      by (simp only: of_nat_less_iff)
    then show ?thesis
      unfolding row by (intro row_loop_fill that(1)) simp_all
  qed
  then show ?thesis
    by (simp add: row row_loop_length)
qed

theorem short_row_black_witness:
  "length [10, 20, 30 :: u8] < nat (3 * int (pal2chrs GRAY) * 1 * 2) \<and>
   do_row GRAY 3 1 2 False [10, 20, 30] [7, 7, 7, 7, 7, 7] (0, (0, 0, 0)) =
     ([(15, 15, 15), (18, 18, 18), (0, 0, 0)], [], [10, 20, 30, 7, 7, 7], (20, (18, 18, 18))) \<and>
   (2::nat) < nat 3 \<and> length [10, 20, 30 :: u8] div pal2chrs GRAY \<le> 2 * nat 2 \<and>
   [(15, 15, 15), (18, 18, 18), (0, 0, 0) :: pixel] ! 2 = (0, 0, 0)"
proof -
  have s: "length [10, 20, 30 :: u8] < nat (3 * int (pal2chrs GRAY) * 1 * 2)" by simp
  have e: "do_row GRAY 3 1 2 False [10, 20, 30] [7, 7, 7, 7, 7, 7] (0, (0, 0, 0)) =
     ([(15, 15, 15), (18, 18, 18), (0, 0, 0)], [], [10, 20, 30, 7, 7, 7], (20, (18, 18, 18)))"
    by code_simp
  have x: "(2::nat) < nat 3" "length [10, 20, 30 :: u8] div pal2chrs GRAY \<le> 2 * nat 2"
    by simp_all
  from short_row_black [OF s e] x
  have "[(15, 15, 15), (18, 18, 18), (0, 0, 0) :: pixel] ! 2 = (0, 0, 0)" by blast
  with s e x show ?thesis by blast
qed

text \<open>
  Claim C2 as stated fails: with skip factor 2, gray palette, zoom 1 and width 2, pixel 1
  of the first row is made from the byte at offset 1, not from offset 2.
\<close>

theorem skip_offset_counterexample:
  "fst (do_row GRAY 2 2 1 False [10, 20, 30, 40, 50, 60, 70, 80] [0, 0, 0, 0] (0, (0, 0, 0))) ! 1 \<noteq>
   window_pixel GRAY 1 False [10, 20, 30, 40] 0 (spec_pixel_offset GRAY 1 2 1)"
proof -
  have "fst (do_row GRAY 2 2 1 False [10, 20, 30, 40, 50, 60, 70, 80] [0, 0, 0, 0]
      (0, (0, 0, 0))) ! 1 = (20, 20, 20)"
    by code_simp
  moreover have "window_pixel GRAY 1 False [10, 20, 30, 40] 0 (spec_pixel_offset GRAY 1 2 1) =
      (30, 30, 30)"
    by code_simp
  ultimately show ?thesis by simp
qed

text \<open>
  Claim C2, amended. For every positive zoom and every skip factor, pixel \<open>x\<close> of a row is
  the end-of-input fill or is assembled from the bytes of the chunk starting at offset
  \<open>x * zoom * pal2chrs pal\<close>: the skip factor does not enter the offset. It only enlarges
  the chunk read for the row to \<open>width * pal2chrs pal * skip * zoom\<close> bytes, which are
  all consumed from the input; the bytes behind the first \<open>width * zoom * pal2chrs pal\<close>
  are discarded after the row.
\<close>

theorem pixel_offset_without_skip:
  assumes "0 < zoom" and "x < nat width"
    and "do_row pal width skip zoom mask' infile inbuf lr = (row, infile1, inbuf1, lr1)"
    and "cnt = nat (width * int (pal2chrs pal) * skip * zoom)"
  shows "infile1 = drop cnt infile \<and>
    inbuf1 = take cnt infile @ drop (min cnt (length infile)) inbuf \<and>
    row ! x =
      (if min cnt (length infile) < x * nat zoom * pal2chrs pal + pal2chrs pal then (0, 0, 0)
       else window_pixel pal zoom mask' inbuf1 (if x = 0 then fst lr else inbuf1 ! (x - 1))
              (x * nat zoom * pal2chrs pal))"
proof -
  obtain l rgb where lr: "lr = (l, rgb)" by (cases lr)
  note d = do_row_eq [OF assms(3) [unfolded lr] assms(4)]
  have "row ! x =
      (if int (min cnt (length infile)) < int (x * nat zoom * pal2chrs pal + pal2chrs pal)
       then (0, 0, 0)
       else window_pixel pal zoom mask' inbuf1 (if x = 0 then l else inbuf1 ! (x - 1))
              (x * nat zoom * pal2chrs pal))"
    unfolding d(3) by (rule row_nth [OF assms(1,2)])
  then have "row ! x =
      (if min cnt (length infile) < x * nat zoom * pal2chrs pal + pal2chrs pal
       then (0, 0, 0)
       else window_pixel pal zoom mask' inbuf1 (if x = 0 then fst lr else inbuf1 ! (x - 1))
              (x * nat zoom * pal2chrs pal))"
    unfolding of_nat_less_iff lr fst_conv .
  with d(1,2) show ?thesis
    by blast
qed

theorem pixel_offset_without_skip_witness:
  "(0::int) < 1 \<and> (1::nat) < nat 2 \<and>
   do_row GRAY 2 2 1 False [10, 20, 30, 40, 50, 60, 70, 80] [0, 0, 0, 0] (0, (0, 0, 0)) =
     ([(10, 10, 10), (20, 20, 20)], [50, 60, 70, 80], [10, 20, 30, 40], (20, (20, 20, 20))) \<and>
   (4::nat) = nat (2 * int (pal2chrs GRAY) * 2 * 1) \<and>
   [50, 60, 70, 80] = drop 4 [10, 20, 30, 40, 50, 60, 70, 80 :: u8] \<and>
   [(10, 10, 10), (20, 20, 20) :: pixel] ! 1 =
     window_pixel GRAY 1 False [10, 20, 30, 40] ([10, 20, 30, 40] ! (1 - 1))
       (1 * nat 1 * pal2chrs GRAY)"
proof -
  have z: "(0::int) < 1" "(1::nat) < nat 2" by simp_all
  have e: "do_row GRAY 2 2 1 False [10, 20, 30, 40, 50, 60, 70, 80] [0, 0, 0, 0] (0, (0, 0, 0)) =
     ([(10, 10, 10), (20, 20, 20)], [50, 60, 70, 80], [10, 20, 30, 40], (20, (20, 20, 20)))"
    by code_simp
  have c: "(4::nat) = nat (2 * int (pal2chrs GRAY) * 2 * 1)" by simp
  from pixel_offset_without_skip [OF z e c]
  have "[50, 60, 70, 80] = drop 4 [10, 20, 30, 40, 50, 60, 70, 80 :: u8] \<and>
    [(10, 10, 10), (20, 20, 20) :: pixel] ! 1 =
     window_pixel GRAY 1 False [10, 20, 30, 40] ([10, 20, 30, 40] ! (1 - 1))
       (1 * nat 1 * pal2chrs GRAY)"
    by simp
  with z e c show ?thesis by blast
qed

text \<open>
  Claim C7. The history byte of the dvi palette is \<open>inbuf[x]\<close>, indexed by the number of
  the pixel just written, and it has no initial value. With zoom 2 on the bytes 10, 20,
  30, 40 both samples of pixel 1 are compared with byte 10, which gives (25, 35, 22); a
  history of the byte consumed just before each sample would give (10, 35, 30). With an
  initial content of 200 in \<open>last\<close>, a one-byte input 10 gives (190, 10, 105) instead of
  (10, 10, 5).
\<close>

theorem dvi_history_evaluated:
  "doimage [10, 20, 30, 40] 2 1 DVI 1 2 False [0, 0, 0, 0] 0 (0, 0, 0) =
     [[(15, 15, 7), (25, 35, 22)]] \<and>
   doimage [10] 1 1 DVI 1 1 False [0] 200 (0, 0, 0) = [[(190, 10, 105)]]"
  by code_simp

section \<open>Usage errors\<close>

lemma getopt_loop_bad_palette:
  assumes "Opt_p name \<in> set opts" "atopal name = None"
  shows "\<exists>f. getopt_loop opts s = Inl f"
  using assms(1)
proof (induction opts s rule: getopt_loop.induct)
  case (7 name' os s)
  then show ?case using assms(2) by (cases "atopal name'") auto
qed auto

lemma exit_code_nonzero: "exit_code f \<noteq> 0"
  by (cases f) simp_all

text \<open>
  Claim C8, amended. An invalid palette name in a \<open>-p\<close> option, a width, height, skip or
  zoom factor that is zero after the options are read, or an argument count that leaves
  other than one file name, ends \<open>main\<close> with a non-zero exit status before any file is
  accessed: status 1 after the usage text, or status 3 after the message of \<open>atopal\<close>.
\<close>

theorem usage_errors_exit:
  assumes "(\<exists>name. Opt_p name \<in> set opts \<and> atopal name = None) \<or>
     (\<exists>s. getopt_loop opts defaults = Inr s \<and>
          (s_width s = 0 \<or> s_height s = 0 \<or> s_skip s = 0 \<or> s_zoom s = 0)) \<or>
     optind + 1 \<noteq> length argv"
  shows "\<exists>f. main_args argv opts optind = Inl f \<and> exit_code f \<noteq> 0"
proof -
  from assms consider
      (palette) name where "Opt_p name \<in> set opts" "atopal name = None"
    | (zero) s where "getopt_loop opts defaults = Inr s"
        "s_width s = 0 \<or> s_height s = 0 \<or> s_skip s = 0 \<or> s_zoom s = 0"
    | (count) "optind + 1 \<noteq> length argv"
    by blast
  then have "\<exists>f. main_args argv opts optind = Inl f"
  proof cases
    case palette
    from getopt_loop_bad_palette [OF this, of defaults] show ?thesis
      by (auto simp: main_args_def)
  next
    case zero
    then show ?thesis by (auto simp: main_args_def)
  next
    case count
    then show ?thesis by (auto simp: main_args_def split: sum.split)
  qed
  then show ?thesis using exit_code_nonzero by blast
qed

text \<open>
  Claim C8 as stated fails for negative values: the test before the file handling is
  \<open>width == 0 || height == 0 || skip == 0 || zoom == 0\<close>, and \<open>-w -5\<close> passes it.
\<close>

theorem negative_width_counterexample:
  "main_args [''dump2png'', ''-w'', ''-5'', ''core''] [Opt_w (- 5)] 3 =
     Inr (defaults\<lparr>s_width := - 5\<rparr>)"
  by (simp add: main_args_def defaults_def)

theorem usage_errors_exit_witness:
  "Opt_p ''grey'' \<in> set [Opt_w 100, Opt_p ''grey''] \<and> atopal ''grey'' = None \<and>
   main_args [''dump2png'', ''-w'', ''100'', ''-p'', ''grey'', ''core'']
     [Opt_w 100, Opt_p ''grey''] 5 = Inl InvalidPalette \<and>
   exit_code InvalidPalette \<noteq> 0 \<and>
   getopt_loop [Opt_z 0] defaults = Inr (defaults\<lparr>s_zoom := 0\<rparr>) \<and>
   s_zoom (defaults\<lparr>s_zoom := 0\<rparr>) = 0 \<and>
   main_args [''dump2png'', ''-z'', ''0'', ''core''] [Opt_z 0] 3 = Inl Usage \<and>
   (1::nat) + 1 \<noteq> length [''dump2png''] \<and>
   main_args [''dump2png''] [] 1 = Inl Usage"
proof -
  have p: "Opt_p ''grey'' \<in> set [Opt_w 100, Opt_p ''grey'']" "atopal ''grey'' = None"
    by (simp_all add: atopal_def)
  have z: "getopt_loop [Opt_z 0] defaults = Inr (defaults\<lparr>s_zoom := 0\<rparr>)"
    "s_zoom (defaults\<lparr>s_zoom := 0\<rparr>) = 0"
    by simp_all
  have c: "(1::nat) + 1 \<noteq> length [''dump2png'']"
    by simp
  have e: "main_args [''dump2png'', ''-w'', ''100'', ''-p'', ''grey'', ''core'']
     [Opt_w 100, Opt_p ''grey''] 5 = Inl InvalidPalette"
    "main_args [''dump2png'', ''-z'', ''0'', ''core''] [Opt_z 0] 3 = Inl Usage"
    "main_args [''dump2png''] [] 1 = Inl Usage"
    by (simp_all add: main_args_def atopal_def defaults_def)
  from usage_errors_exit [of "[Opt_w 100, Opt_p ''grey'']" 5
      "[''dump2png'', ''-w'', ''100'', ''-p'', ''grey'', ''core'']"] p
  have "exit_code InvalidPalette \<noteq> 0"
    unfolding e by blast
  with p z c e show ?thesis by blast
qed

section \<open>Height auto-scaling\<close>

lemma bitlen_0 [simp]: "bitlen 0 = 0"
  by (simp add: bitlen.simps)

lemma bitlen_pos: "0 < n \<Longrightarrow> bitlen n = Suc (bitlen (n div 2))"
  by (subst bitlen.simps) simp

lemma bitlen_lt: "n < 2 ^ bitlen n"
proof (induction n rule: bitlen.induct)
  case (1 n)
  show ?case
  proof (cases "n = 0")
    case True
    then show ?thesis by simp
  next
    case False
    with 1 have "n div 2 < 2 ^ bitlen (n div 2)" by simp
    then have "n < 2 * 2 ^ bitlen (n div 2)" by linarith
    then show ?thesis using False by (simp add: bitlen_pos)
  qed
qed

lemma bitlen_ge: "0 < n \<Longrightarrow> 2 ^ (bitlen n - 1) \<le> n"
proof (induction n rule: bitlen.induct)
  case (1 n)
  then have n: "bitlen n - 1 = bitlen (n div 2)" by (simp add: bitlen_pos)
  show ?case
  proof (cases "n div 2 = 0")
    case True
    then show ?thesis unfolding n using "1.prems" by simp
  next
    case False
    then have p: "0 < n div 2" by simp
    with 1 have "2 ^ (bitlen (n div 2) - 1) \<le> n div 2" by simp
    moreover have "(2::nat) ^ bitlen (n div 2) = 2 * 2 ^ (bitlen (n div 2) - 1)"
      by (simp add: bitlen_pos [OF p])
    ultimately have "(2::nat) ^ bitlen (n div 2) \<le> 2 * (n div 2)" by simp
    then show ?thesis unfolding n by linarith
  qed
qed

lemma ilog2_le:
  assumes "0 < x"
  shows "2 powi (ilog2 x) \<le> x"
proof (cases "1 \<le> x")
  case True
  define m where "m = nat \<lfloor>x\<rfloor>"
  have m: "0 < m" "rat_of_nat m \<le> x"
    using True by (simp_all add: m_def le_floor_iff)
  have b: "0 < bitlen m" using m(1) by (simp add: bitlen_pos)
  then have "ilog2 x = int (bitlen m - 1)"
    using True by (simp add: ilog2_def m_def)
  then have "(2::rat) powi (ilog2 x) = rat_of_nat (2 ^ (bitlen m - 1))"
    by simp
  also have "\<dots> \<le> rat_of_nat m"
    using bitlen_ge [OF m(1)] by (simp only: of_nat_le_iff)
  finally show ?thesis using m(2) by simp
next
  case False
  define j where "j = bitlen (nat (\<lceil>1 / x\<rceil> - 1))"
  have i: "ilog2 x = - int j" using False by (simp add: ilog2_def j_def)
  have "1 < 1 / x" using assms False by simp
  then have c: "2 \<le> \<lceil>1 / x\<rceil>" by (simp add: le_ceiling_iff less_ceiling_iff) 
  have "nat (\<lceil>1 / x\<rceil> - 1) < 2 ^ j" unfolding j_def by (rule bitlen_lt)
  then have "\<lceil>1 / x\<rceil> - 1 < 2 ^ j" using c by (simp add: nat_less_iff)
  then have "\<lceil>1 / x\<rceil> \<le> 2 ^ j" by simp
  then have "1 / x \<le> 2 ^ j" by (simp add: ceiling_le_iff)
  then have "1 / 2 ^ j \<le> x" using assms by (simp add: field_simps)
  then show ?thesis by (simp add: i power_int_minus field_simps)
qed

lemma ilog2_gt:
  assumes "0 < x"
  shows "x < 2 powi (ilog2 x + 1)"
proof (cases "1 \<le> x")
  case True
  define m where "m = nat \<lfloor>x\<rfloor>"
  have "ilog2 x + 1 = int (bitlen m)"
    using True by (simp add: ilog2_def m_def)
  then have p: "(2::rat) powi (ilog2 x + 1) = 2 ^ bitlen m" by simp
  have "m < 2 ^ bitlen m" by (rule bitlen_lt)
  then have "\<lfloor>x\<rfloor> < 2 ^ bitlen m" using True by (simp add: m_def nat_less_iff)
  then have "x < 2 ^ bitlen m" by (simp add: floor_less_iff)
  then show ?thesis by (simp add: p)
next
  case False
  define m where "m = nat (\<lceil>1 / x\<rceil> - 1)"
  define j where "j = bitlen m"
  have i: "ilog2 x + 1 = - int (j - 1)" "0 < j" if "0 < m"
    using False that by (simp_all add: ilog2_def j_def m_def bitlen_pos)
  have "1 < 1 / x" using assms False by simp
  then have c: "2 \<le> \<lceil>1 / x\<rceil>" by (simp only: le_ceiling_iff)
  then have m: "0 < m" "int m = \<lceil>1 / x\<rceil> - 1" unfolding m_def by linarith+
  have "2 ^ (j - 1) \<le> m" unfolding j_def by (rule bitlen_ge [OF m(1)])
  then have "(2::int) ^ (j - 1) \<le> int m" by (metis of_nat_le_iff of_nat_numeral of_nat_power)
  then have "2 ^ (j - 1) < \<lceil>1 / x\<rceil>" using m(2) by simp
  then have "2 ^ (j - 1) < 1 / x" by (simp add: less_ceiling_iff)
  then have "x < 1 / 2 ^ (j - 1)" using assms by (simp add: field_simps)
  moreover have "(2::rat) powi (ilog2 x + 1) = 2 powi (- int (j - 1))"
    by (simp only: i(1) [OF m(1)])
  moreover have "(2::rat) powi (- int (j - 1)) = 1 / 2 ^ (j - 1)"
    by (simp add: power_int_minus field_simps)
  ultimately show ?thesis by simp
qed


lemma rne_close: "\<bar>of_int (rne y) - y\<bar> \<le> 1 / 2"
proof -
  have "of_int \<lfloor>y\<rfloor> \<le> y" "y < of_int \<lfloor>y\<rfloor> + 1"
    by linarith+
  then show ?thesis
    by (auto simp: rne_def Let_def abs_le_iff)
qed

lemma rne_of_int: "rne (of_int n) = n"
  by (simp add: rne_def)

lemma f32_pos:
  assumes "0 < x"
  shows "f32 x = of_int (rne (x / 2 powi (ilog2 x - 23))) * 2 powi (ilog2 x - 23)"
  using assms by (simp add: f32_def Let_def)

lemma f32_close:
  assumes "0 < x"
  shows "\<bar>f32 x - x\<bar> \<le> 2 powi (ilog2 x - 23) / 2"
proof -
  define u :: rat where "u = 2 powi (ilog2 x - 23)"
  have u: "0 < u" by (simp add: u_def)
  have "f32 x - x = (of_int (rne (x / u)) - x / u) * u"
    using u by (simp add: f32_pos [OF assms] u_def [symmetric] field_simps)
  then have "\<bar>f32 x - x\<bar> = \<bar>of_int (rne (x / u)) - x / u\<bar> * u"
    using u by (simp add: abs_mult)
  also have "\<dots> \<le> 1 / 2 * u"
    using rne_close [of "x / u"] u by (intro mult_right_mono) simp_all
  finally show ?thesis by (simp add: u_def)
qed

lemma ilog2_less:
  assumes "0 < x" "x < 2 ^ n"
  shows "ilog2 x < int n"
proof (rule ccontr)
  assume "\<not> ilog2 x < int n"
  then have "int n \<le> ilog2 x" by simp
  then have "(2::rat) powi (int n) \<le> 2 powi (ilog2 x)"
    by (intro power_int_increasing) simp_all
  with ilog2_le [OF assms(1)] have "2 ^ n \<le> x" by simp
  with assms(2) show False by simp
qed

lemma f32_of_int:
  assumes "0 \<le> n" "n < 2 ^ 24"
  shows "f32 (of_int n) = of_int n"
proof (cases "n = 0")
  case True
  then show ?thesis by (simp add: f32_def)
next
  case False
  with assms(1) have pos: "0 < (of_int n :: rat)" by simp
  have "(of_int n :: rat) < 2 ^ 24"
    using assms(2) by (metis of_int_less_iff of_int_numeral of_int_power)
  from ilog2_less [OF pos this] have e: "ilog2 (of_int n) - 23 \<le> 0" by simp
  define k where "k = nat (- (ilog2 (of_int n) - 23))"
  have k: "ilog2 (of_int n) - 23 = - int k" using e by (simp add: k_def)
  have p: "(2::rat) powi (ilog2 (of_int n) - 23) = 1 / 2 ^ k"
    unfolding k by (simp add: power_int_minus field_simps)
  have "(of_int n :: rat) / (1 / 2 ^ k) = of_int (n * 2 ^ k)" by simp
  then show ?thesis
    unfolding f32_pos [OF pos] p by (simp only: rne_of_int) simp
qed

lemma f32_div_ceiling:
  assumes "0 < a" "a < 2 ^ 24" "0 < b" "b < 2 ^ 24"
  shows "\<lceil>f32 (of_int a / of_int b)\<rceil> = \<lceil>(of_int a / of_int b :: rat)\<rceil>"
proof (cases "b dvd a")
  case True
  then obtain q where q: "a = b * q" ..
  with assms(1,3) have "0 < q" by (simp add: zero_less_mult_iff)
  moreover have "q \<le> a" using q assms(3) \<open>0 < q\<close> by simp
  ultimately have "0 \<le> q" "q < 2 ^ 24" using assms(2) by simp_all
  from f32_of_int [OF this] have "f32 (of_int q) = of_int q" .
  moreover have "(of_int a / of_int b :: rat) = of_int q"
    using assms(3) by (simp add: q)
  ultimately show ?thesis by simp
next
  case False
  define x :: rat where "x = of_int a / of_int b"
  define n where "n = a div b"
  define r where "r = a mod b"
  have "r \<noteq> 0" using False by (simp add: r_def dvd_eq_mod_eq_0)
  moreover have "0 \<le> r" "r < b" using assms(3) by (simp_all add: r_def)
  ultimately have r: "1 \<le> r" "r \<le> b - 1" by linarith+
  have a: "a = n * b + r" by (simp add: n_def r_def)
  have bpos: "0 < (of_int b :: rat)" using assms(3) by simp
  have xpos: "0 < x" using assms(1,3) by (simp add: x_def)
  have x: "x = of_int n + of_int r / of_int b"
    using bpos by (simp add: x_def a field_simps)
  have lo: "of_int n + 1 / of_int b \<le> x"
    unfolding x using r(1) bpos by (simp add: field_simps)
  have "(of_int r :: rat) \<le> of_int (b - 1)"
    using r(2) by (simp only: of_int_le_iff)
  then have "(of_int r :: rat) / of_int b \<le> (of_int b - 1) / of_int b"
    using bpos by (intro divide_right_mono) simp_all
  also have "\<dots> = 1 - 1 / of_int b"
    using bpos by (simp add: diff_divide_distrib)
  finally have hi: "x \<le> of_int n + 1 - 1 / of_int b"
    unfolding x by simp
  define u :: rat where "u = 2 powi (ilog2 x - 23)"
  have "2 powi (ilog2 x) \<le> x" by (rule ilog2_le [OF xpos])
  then have "(2::rat) powi (ilog2 x) * of_int b \<le> of_int a"
    using bpos by (simp add: x_def field_simps)
  also have "(of_int a :: rat) < 2 ^ 24"
    using assms(2) by (metis of_int_less_iff of_int_numeral of_int_power)
  finally have "(2::rat) powi (ilog2 x) / 2 ^ 24 < 1 / of_int b"
    using bpos by (simp add: field_simps)
  moreover have "u / 2 = 2 powi (ilog2 x) / 2 ^ 24"
    by (simp add: u_def power_int_diff)
  ultimately have half: "u / 2 < 1 / of_int b" by simp
  from f32_close [OF xpos] have "\<bar>f32 x - x\<bar> \<le> u / 2" by (simp add: u_def)
  then have "x - u / 2 \<le> f32 x" "f32 x \<le> x + u / 2" by linarith+
  with lo hi half have "of_int n < f32 x" "f32 x < of_int n + 1" by linarith+
  then have "\<lceil>f32 x\<rceil> = n + 1" by (intro ceiling_unique) simp_all
  moreover have "0 < 1 / (of_int b :: rat)" using bpos by simp
  with lo hi have "of_int n < x" "x \<le> of_int n + 1" by linarith+
  then have "\<lceil>x\<rceil> = n + 1" by (intro ceiling_unique) simp_all
  ultimately show ?thesis by (simp only: x_def)
qed


lemma c_div_nonneg:
  assumes "0 \<le> a" "0 < b"
  shows "c_div a b = a div b"
  using assms by (simp add: c_div_def)

lemma fullheight_exact:
  assumes "0 \<le> st_size" "0 < zoom * skip * chrs"
    and "st_size div (zoom * skip * chrs) < 2 ^ 24"
    and "0 < width" "width < 2 ^ 24"
  shows "fullheight st_size zoom skip chrs width =
    \<lceil>(of_int (st_size div (zoom * skip * chrs)) :: rat) / of_int width\<rceil>"
proof -
  define q where "q = st_size div (zoom * skip * chrs)"
  have q: "0 \<le> q" "q < 2 ^ 24"
    using assms(1,2,3) by (simp_all add: q_def pos_imp_zdiv_nonneg_iff)
  have c: "c_div st_size (zoom * skip * chrs) = q"
    using assms(1,2) by (simp add: c_div_nonneg q_def)
  have w: "f32 (of_int width) = of_int width"
    using assms(4,5) by (intro f32_of_int) simp_all
  have fq: "f32 (of_int q) = of_int q"
    using q by (rule f32_of_int)
  have d: "\<lceil>f32 (of_int q / of_int width)\<rceil> = \<lceil>(of_int q / of_int width :: rat)\<rceil>"
  proof (cases "q = 0")
    case True
    then show ?thesis by (simp add: f32_def)
  next
    case False
    with q(1) have "0 < q" by simp
    then show ?thesis using q(2) assms(4,5) by (rule f32_div_ceiling)
  qed
  have "fullheight st_size zoom skip chrs width = \<lceil>(of_int q / of_int width :: rat)\<rceil>"
    unfolding fullheight_def c w fq by (rule d)
  then show ?thesis
    unfolding q_def .
qed

text \<open>
  Above 24 bits the conversion to \<open>float\<close> rounds: a file of 16777217 bytes at width 1
  gets the height 16777216.
\<close>

lemma bitlen_eq:
  assumes "2 ^ k \<le> n" "n < 2 ^ Suc k"
  shows "bitlen n = Suc k"
proof -
  have pos: "0 < n" using assms(1) by (cases "n = 0") simp_all
  have "(2::nat) ^ k < 2 ^ bitlen n"
    using assms(1) bitlen_lt [of n] by (rule le_less_trans)
  then have "k < bitlen n" by simp
  moreover have "(2::nat) ^ (bitlen n - 1) < 2 ^ Suc k"
    using bitlen_ge [OF pos] assms(2) by (rule le_less_trans)
  then have "bitlen n - 1 < Suc k" by (simp only: power_strict_increasing_iff) 
  ultimately show ?thesis by simp
qed

lemma ilog2_24:
  assumes "x = 16777216 \<or> x = 16777217"
  shows "ilog2 x = 24"
proof -
  have "nat \<lfloor>x\<rfloor> = 16777216 \<or> nat \<lfloor>x\<rfloor> = 16777217" using assms by auto
  then have "bitlen (nat \<lfloor>x\<rfloor>) = Suc 24"
    by (intro bitlen_eq) auto
  then show ?thesis using assms by (auto simp: ilog2_def)
qed

lemma f32_above_24_bits: "f32 16777217 = 16777216" "f32 16777216 = 16777216"
proof -
  have "\<lfloor>(16777217::rat) / 2\<rfloor> = 8388608"
    by (rule floor_unique) simp_all
  then show "f32 16777217 = 16777216"
    by (simp add: f32_def ilog2_24 rne_def Let_def)
  show "f32 16777216 = 16777216"
    by (simp add: f32_def ilog2_24 rne_def)
qed

lemma single_precision_rounds:
  "fullheight 16777217 1 1 1 1 = 16777216 \<and> \<lceil>(16777217::rat) / (1 * 1 * 1) / 1\<rceil> = 16777217"
proof -
  have "f32 (of_int 1) = of_int 1" by (rule f32_of_int) simp_all
  then have "f32 1 = 1" by simp
  then show ?thesis
    by (simp add: fullheight_def c_div_def f32_above_24_bits)
qed



text \<open>
  Claim C1 as stated fails: the quotient of the file size by \<open>zoom * skip * chrs\<close> is
  truncated to an integer before it is divided by the width. For 7 bytes, zoom 2 and
  width 3 the height is 1, and the ceiling of the exact quotient 7 / 2 / 3 is 2.
\<close>

theorem auto_height_counterexample:
  "fst (main_height (defaults\<lparr>s_zoom := 2, s_width := 3\<rparr>) 7) = 1 \<and>
   \<lceil>(7::rat) / (2 * 1 * 1) / 3\<rceil> = 2"
proof
  have "fullheight 7 2 1 1 3 = \<lceil>(of_int (7 div (2 * 1 * 1)) :: rat) / of_int 3\<rceil>"
    by (rule fullheight_exact) simp_all
  then have "fullheight 7 2 1 1 3 = 1" by simp
  then show "fst (main_height (defaults\<lparr>s_zoom := 2, s_width := 3\<rparr>) 7) = 1"
    by (simp add: main_height_def defaults_def)
  show "\<lceil>(7::rat) / (2 * 1 * 1) / 3\<rceil> = 2"
    by (simp add: ceiling_eq_iff) 
qed

text \<open>
  Claim C1, amended. For positive zoom, skip and width, with the truncated quotient
  \<open>q = st_size div (zoom * skip * chrs)\<close> and the width below \<open>2 ^ 24\<close>, where single
  precision is exact, the computed height is the ceiling of \<open>q / width\<close>. When it does not
  exceed the requested height it becomes the height if auto-height is on, and no notice
  is printed. When it exceeds the requested height, the height stays at the requested one
  and the notice reports \<open>width * height * zoom * skip * chrs\<close> bytes shown, modulo
  \<open>2 ^ 64\<close>, of \<open>st_size\<close>.
\<close>

theorem auto_height:
  assumes "0 < s_zoom s" "0 < s_skip s" "0 < s_width s" "s_width s < 2 ^ 24" "0 \<le> st_size"
    and "q = st_size div (s_zoom s * s_skip s * int (pal2chrs (s_pal s)))" "q < 2 ^ 24"
    and "fh = \<lceil>(of_int q :: rat) / of_int (s_width s)\<rceil>"
  shows "(s_hscale s \<and> fh \<le> s_height s \<longrightarrow> main_height s st_size = (fh, None)) \<and>
    (\<not> s_hscale s \<and> fh \<le> s_height s \<longrightarrow> main_height s st_size = (s_height s, None)) \<and>
    (s_height s < fh \<longrightarrow>
       main_height s st_size =
         (s_height s,
          Some (word_of_int (s_width s * s_height s * s_zoom s * s_skip s *
                  int (pal2chrs (s_pal s))),
                word_of_int st_size)))"
proof -
  have "0 < s_zoom s * s_skip s * int (pal2chrs (s_pal s))"
    using assms(1,2) pal2chrs_pos [of "s_pal s"] by simp
  from fullheight_exact [OF assms(5) this assms(7) [unfolded assms(6)] assms(3,4)]
  have "fullheight st_size (s_zoom s) (s_skip s) (int (pal2chrs (s_pal s))) (s_width s) = fh"
    by (simp only: assms(6,8))
  then show ?thesis
    by (simp add: main_height_def Let_def)
qed

theorem auto_height_witness:
  "(0::int) < 2 \<and> (0::int) < 1 \<and> (0::int) < 3 \<and> (3::int) < 2 ^ 24 \<and> (0::int) \<le> 7 \<and>
   (3::int) = 7 div (2 * 1 * int (pal2chrs X86)) \<and> (1::int) = \<lceil>(of_int 3 :: rat) / of_int 3\<rceil> \<and>
   (1::int) \<le> 10240 \<and>
   main_height (defaults\<lparr>s_zoom := 2, s_width := 3\<rparr>) 7 = (1, None) \<and>
   (24::int) = \<lceil>(of_int 70 :: rat) / of_int 3\<rceil> \<and> (2::int) < 24 \<and>
   main_height (defaults\<lparr>s_height := 2, s_width := 3\<rparr>) 70 = (2, Some (6, 70))"
proof -
  let ?s = "defaults\<lparr>s_zoom := 2, s_width := 3\<rparr>"
  let ?t = "defaults\<lparr>s_height := 2, s_width := 3\<rparr>"
  have c1: "(1::int) = \<lceil>(of_int 3 :: rat) / of_int 3\<rceil>" by simp
  have c2: "(24::int) = \<lceil>(of_int 70 :: rat) / of_int 3\<rceil>"
    by (simp add: eq_commute [of 24] ceiling_eq_iff)
  have a: "main_height ?s 7 = (1, None)"
    using auto_height [of ?s 7 3 1] c1 by (simp add: defaults_def)
  have b: "main_height ?t 70 = (2, Some (6, 70))"
    using auto_height [of ?t 70 70 24] c2 by (simp add: defaults_def)
  from a b c1 c2 show ?thesis by simp
qed

end
